theory Spec2Isabelle
  imports Main
begin

section \<open>The gevent worker of tgext.rq\<close>

text \<open>
  A shallow embedding of \<^verbatim>\<open>src/tgext/rq/rq_gevent_worker.py\<close>: the class
  \<^verbatim>\<open>GeventWorker\<close>, its work loop, its signal handlers and its completion callback.

  The worker is one record, passed through every method and returned updated. Every call
  the worker makes on a collaborator (the rq base class, the queue backend, the greenlet
  pool, the scheduler, the logger) is appended to the field \<open>trace\<close>, in program order.

  The worker runs on gevent's cooperative scheduler: other greenlets (the admitted jobs,
  the signal handlers) run only while the worker is blocked. The source blocks explicitly
  in three places: \<^verbatim>\<open>gevent.sleep(0.1)\<close>, \<^verbatim>\<open>dequeue_any\<close> and
  \<^verbatim>\<open>get_hub().switch()\<close>; the pool's \<^verbatim>\<open>spawn\<close> blocks when the pool is full.
  What the environment does at each of them is an input of the model: a list of ticks,
  one consumed per blocking call. A run whose ticks are used up while the worker is blocked
  ends as \<open>Blocked\<close>: the worker is still waiting.
\<close>

subsection \<open>Jobs, queues, statuses\<close>

datatype job = Job (job_id: nat)

datatype queue = Queue (queue_name: string)

text \<open>\<^verbatim>\<open>rq.job.JobStatus\<close>; the worker compares with \<^verbatim>\<open>FINISHED\<close> only.\<close>

datatype job_status = QUEUED | FINISHED | FAILED | STARTED | DEFERRED | CANCELED

text \<open>\<^verbatim>\<open>rq.worker.WorkerStatus\<close>, the three values the worker sets.\<close>

datatype worker_status = WS_STARTED | WS_BUSY | WS_IDLE

text \<open>The function that \<^verbatim>\<open>gevent.hub.signal\<close> has bound to SIGINT and SIGTERM.\<close>

datatype sig_handler = RequestStop | RequestForceStop

datatype message =
    ColdShutDown
  | WarmShutDownRequested
  | StoppingAfterGreenlets
  | WorkerStarted nat
  | StoppingOnRequest
  | DoneQuitting
  | PoolEmpty nat
  | JobInfo queue job

datatype action =
    SetupLoghandlers string
  | InstallHandler sig_handler
  | RegisterBirth nat
  | RegisterDeath
  | Heartbeat int nat
  | SetState worker_status
  | LogWarning message
  | LogInfo message
  | CreateScheduler string string string
  | AcquireLocks
  | EnqueueScheduledJobs
  | ReleaseLocks
  | StartScheduler
  | StopScheduler
  | CheckForSuspension bool
  | RunMaintenanceTasks
  | Sleep nat
  | DequeueAny "int option"
  | HubSwitch
  | Spawn job queue
  | GreenletFinished job job_status
  | EnqueueDependents queue job
  | PoolJoin
  | PoolKill
  | KillWorker

subsection \<open>The environment\<close>

text \<open>
  While the worker is blocked, an admitted execution can finish (\<open>Complete i st\<close>: the
  greenlet at position \<open>i\<close> of the pool, whose job then reads status \<open>st\<close>) and a
  termination signal can arrive. A blocked \<^verbatim>\<open>dequeue_any\<close> then answers with a job
  and its queue, with nothing, with \<^verbatim>\<open>DequeueTimeout\<close>, or with an error of the
  backend.
\<close>

datatype env_event = Complete nat job_status | Signal

datatype deq_result = DeqJob job queue | DeqNone | DeqTimeout | DeqError

datatype tick = Tick (events: "env_event list") (answer: deq_result)

type_synonym script = "tick list"

datatype exn = StopRequested | BackendError

text \<open>
  The result of a method: a value, an exception raised in the worker, the end of the
  process (\<^verbatim>\<open>SystemExit\<close> raised by the cold handler), or still blocked.
\<close>

datatype 'a res = Ok 'a | Exn exn | Exit | Blocked

datatype interrupt = Resume | Thrown | Exited

subsection \<open>The worker\<close>

record worker =
  pool_size :: nat
  pool :: "(job \<times> queue) list"
  default_worker_ttl :: int
  is_horse :: bool
  scheduler :: bool
  acquired_locks :: bool
  maintenance_due :: bool
  stop_requested :: bool
  did_perform_work :: bool
  gevent_worker :: bool
  handler :: sig_handler
  joining :: bool
  killed :: bool
  trace :: "action list"

text \<open>
  \<open>pool_size\<close> and \<open>pool\<close> are \<^verbatim>\<open>gevent_pool.size\<close> and the greenlets in the pool,
  each with the job and queue its callback closes over. \<open>scheduler\<close> and
  \<open>gevent_worker\<close> say whether the attribute is set (truthy, not None).
  \<open>acquired_locks\<close> is what the scheduler reports after \<^verbatim>\<open>acquire_locks\<close>,
  \<open>maintenance_due\<close> is \<^verbatim>\<open>should_run_maintenance_tasks\<close>. \<open>joining\<close> holds while
  the warm handler waits in \<^verbatim>\<open>gevent_pool.join()\<close>; \<open>killed\<close> holds from
  \<^verbatim>\<open>gevent_worker.kill(StopRequested)\<close> until the worker greenlet is resumed with
  the exception.
\<close>

definition DEFAULT_POOL_SIZE :: nat where
  "DEFAULT_POOL_SIZE = 20"

text \<open>\<^verbatim>\<open>__init__\<close>: the pool's capacity is the keyword \<^verbatim>\<open>pool_size\<close> when given.\<close>

definition init :: "nat option \<Rightarrow> int \<Rightarrow> bool \<Rightarrow> worker" where
  "init kw_pool_size ttl horse =
     \<lparr> pool_size = (case kw_pool_size of Some n \<Rightarrow> n | None \<Rightarrow> DEFAULT_POOL_SIZE),
       pool = [],
       default_worker_ttl = ttl,
       is_horse = horse,
       scheduler = False,
       acquired_locks = False,
       maintenance_due = False,
       stop_requested = False,
       did_perform_work = False,
       gevent_worker = False,
       handler = RequestStop,
       joining = False,
       killed = False,
       trace = [] \<rparr>"

definition act :: "action \<Rightarrow> worker \<Rightarrow> worker" where
  "act a w = w\<lparr>trace := trace w @ [a]\<rparr>"

definition register_birth :: "worker \<Rightarrow> worker" where
  "register_birth w = act (RegisterBirth (pool_size w)) w"

definition heartbeat :: "int \<Rightarrow> worker \<Rightarrow> worker" where
  "heartbeat timeout w = act (Heartbeat timeout (length (pool w))) w"

definition set_state :: "worker_status \<Rightarrow> worker \<Rightarrow> worker" where
  "set_state s w = act (SetState s) w"

definition stop_scheduler :: "worker \<Rightarrow> worker" where
  "stop_scheduler w = act StopScheduler w"

definition register_death :: "worker \<Rightarrow> worker" where
  "register_death w = act RegisterDeath w"

definition check_for_suspension :: "bool \<Rightarrow> worker \<Rightarrow> worker" where
  "check_for_suspension burst w = act (CheckForSuspension burst) w"

definition run_maintenance_tasks :: "worker \<Rightarrow> worker" where
  "run_maintenance_tasks w = (act RunMaintenanceTasks w)\<lparr>maintenance_due := False\<rparr>"

subsection \<open>The greenlet pool\<close>

text \<open>
  Modelled from the spec: \<^verbatim>\<open>gevent.pool.Pool\<close>, a library the repository imports.
  Section 4.3 of the spec: a bounded container whose capacity is fixed at construction;
  \<^verbatim>\<open>full()\<close> holds when the in-flight count has reached the capacity; \<^verbatim>\<open>spawn\<close>
  blocks at capacity rather than erroring; \<^verbatim>\<open>join()\<close> blocks until no execution is in
  flight; \<^verbatim>\<open>kill()\<close> cancels every in-flight execution; a finished execution leaves
  the pool and its linked callback is run once.
\<close>

definition full :: "worker \<Rightarrow> bool" where
  "full w = (pool_size w \<le> length (pool w))"

text \<open>The callback \<^verbatim>\<open>job_done\<close> of \<^verbatim>\<open>execute_job\<close>, closed over job and queue.\<close>

definition job_done :: "job \<Rightarrow> queue \<Rightarrow> job_status \<Rightarrow> worker \<Rightarrow> worker" where
  "job_done j q st w =
     (let w1 = w\<lparr>did_perform_work := True\<rparr>;
          w2 = heartbeat 0 w1
      in if st = FINISHED then act (EnqueueDependents q j) w2 else w2)"

definition greenlet_finished :: "nat \<Rightarrow> job_status \<Rightarrow> worker \<Rightarrow> worker" where
  "greenlet_finished i st w =
     (if i < length (pool w) then
        (case pool w ! i of (j, q) \<Rightarrow>
           job_done j q st
             (act (GreenletFinished j st) (w\<lparr>pool := take i (pool w) @ drop (Suc i) (pool w)\<rparr>)))
      else w)"

text \<open>
  The warm handler resumes from \<^verbatim>\<open>gevent_pool.join()\<close> once the pool is empty, and
  kills the worker greenlet when there is one.
\<close>

definition join_wakeup :: "worker \<Rightarrow> worker" where
  "join_wakeup w =
     (if joining w \<and> pool w = [] then
        (let w1 = w\<lparr>joining := False\<rparr>
         in if gevent_worker w1 then (act KillWorker w1)\<lparr>killed := True\<rparr> else w1)
      else w)"

subsection \<open>Signal handlers\<close>

definition request_force_stop :: "worker \<Rightarrow> worker" where
  "request_force_stop w =
     (let w1 = act (LogWarning ColdShutDown) w;
          w2 = (act PoolKill w1)\<lparr>pool := []\<rparr>
      in w2)"

definition request_stop :: "worker \<Rightarrow> worker" where
  "request_stop w =
     (if \<not> stop_requested w then
        (let w1 = (if scheduler w then stop_scheduler w else w);
             w2 = (act (InstallHandler RequestForceStop) w1)\<lparr>handler := RequestForceStop\<rparr>;
             w3 = act (LogWarning WarmShutDownRequested) w2;
             w4 = act (LogWarning StoppingAfterGreenlets) w3;
             w5 = w4\<lparr>stop_requested := True\<rparr>;
             w6 = (act PoolJoin w5)\<lparr>joining := True\<rparr>
         in join_wakeup w6)
      else w)"

definition install_signal_handlers :: "worker \<Rightarrow> worker" where
  "install_signal_handlers w = (act (InstallHandler RequestStop) w)\<lparr>handler := RequestStop\<rparr>"

text \<open>
  What happens while the worker is blocked. The flag returned says that the cold handler
  raised \<^verbatim>\<open>SystemExit\<close>: the process ends there.
\<close>

fun run_events :: "env_event list \<Rightarrow> worker \<Rightarrow> bool \<times> worker" where
  "run_events [] w = (False, w)"
| "run_events (Complete i st # es) w = run_events es (join_wakeup (greenlet_finished i st w))"
| "run_events (Signal # es) w =
     (case handler w of
        RequestStop \<Rightarrow> run_events es (request_stop w)
      | RequestForceStop \<Rightarrow> (True, request_force_stop w))"

definition yield :: "env_event list \<Rightarrow> worker \<Rightarrow> interrupt \<times> worker" where
  "yield es w =
     (case run_events es w of
        (True, w') \<Rightarrow> (Exited, w')
      | (False, w') \<Rightarrow> if killed w' then (Thrown, w'\<lparr>killed := False\<rparr>) else (Resume, w'))"

text \<open>A blocking call: the call is made, then the next tick of the environment happens.\<close>

definition blocking :: "action \<Rightarrow> worker \<Rightarrow> script \<Rightarrow> deq_result res \<times> worker \<times> script" where
  "blocking a w ticks =
     (case ticks of
        [] \<Rightarrow> (Blocked, act a w, [])
      | t # ts \<Rightarrow>
          (case yield (events t) (act a w) of
             (Exited, w') \<Rightarrow> (Exit, w', ts)
           | (Thrown, w') \<Rightarrow> (Exn StopRequested, w', ts)
           | (Resume, w') \<Rightarrow> (Ok (answer t), w', ts)))"

lemma blocking_length: "blocking a w ticks = (r, w', ticks') \<Longrightarrow> length ticks' \<le> length ticks"
  by (auto simp: blocking_def split: list.splits prod.splits interrupt.splits)

lemma blocking_Ok_length: "blocking a w ticks = (Ok x, w', ticks') \<Longrightarrow> length ticks' < length ticks"
  by (auto simp: blocking_def split: list.splits prod.splits interrupt.splits)

subsection \<open>Dequeueing\<close>

text \<open>Line 138 of the source: the timeout handed to the dequeue.\<close>

definition dequeue_timeout :: "bool \<Rightarrow> int \<Rightarrow> int option" where
  "dequeue_timeout burst ttl = (if burst then None else Some (max 1 (ttl - 60)))"

text \<open>Lines 210 to 213: the wait for a free slot of the pool.\<close>

function wait_while_full :: "worker \<Rightarrow> script \<Rightarrow> unit res \<times> worker \<times> script" where
  "wait_while_full w ticks =
     (if full w then
        (case blocking (Sleep 100) w ticks of
           (Ok _, w1, ts) \<Rightarrow>
             if stop_requested w1 then (Exn StopRequested, w1, ts) else wait_while_full w1 ts
         | (Exn e, w1, ts) \<Rightarrow> (Exn e, w1, ts)
         | (Exit, w1, ts) \<Rightarrow> (Exit, w1, ts)
         | (Blocked, w1, ts) \<Rightarrow> (Blocked, w1, ts))
      else (Ok (), w, ticks))"
  by pat_completeness auto
termination
  by (relation "measure (\<lambda>(w, ticks). length ticks)") (auto dest: blocking_Ok_length [OF sym])

declare wait_while_full.simps [simp del]

lemma wait_while_full_length:
  "wait_while_full w ticks = (r, w', ts) \<Longrightarrow> length ts \<le> length ticks"
proof (induction w ticks arbitrary: r w' ts rule: wait_while_full.induct)
  case (1 w ticks)
  show ?case
  proof (cases "full w")
    case False
    with "1.prems" show ?thesis by (simp add: wait_while_full.simps)
  next
    case True
    obtain r1 w1 ts1 where b: "blocking (Sleep 100) w ticks = (r1, w1, ts1)"
      by (cases "blocking (Sleep 100) w ticks") auto
    have le: "length ts1 \<le> length ticks" using b by (rule blocking_length)
    show ?thesis
    proof (cases r1)
      case (Ok x)
      show ?thesis
      proof (cases "stop_requested w1")
        case True
        with "1.prems" \<open>full w\<close> b Ok le show ?thesis by (simp add: wait_while_full.simps)
      next
        case False
        with "1.prems" \<open>full w\<close> b Ok have "wait_while_full w1 ts1 = (r, w', ts)"
          by (simp add: wait_while_full.simps)
        then have "length ts \<le> length ts1"
          by (rule "1.IH" [OF True b [symmetric] Ok refl False])
        with le show ?thesis by simp
      qed
    qed (use "1.prems" True b le in \<open>auto simp: wait_while_full.simps\<close>)
  qed
qed

text \<open>Lines 204 to 208: the warning when the pool is found full.\<close>

definition warn_if_full :: "worker \<Rightarrow> worker" where
  "warn_if_full w =
     (if full w then act (LogWarning (PoolEmpty (pool_size w))) (set_state WS_BUSY w) else w)"

text \<open>Lines 198 to 226: the loop around \<^verbatim>\<open>dequeue_any\<close>.\<close>

function dequeue_loop ::
  "int option \<Rightarrow> worker \<Rightarrow> script \<Rightarrow> (job \<times> queue) option res \<times> worker \<times> script" where
  "dequeue_loop timeout w ticks =
     (if stop_requested w then (Exn StopRequested, w, ticks)
      else
        (case wait_while_full (warn_if_full (heartbeat 0 w)) ticks of
           (Ok _, w3, ts) \<Rightarrow>
             (case blocking (DequeueAny timeout) w3 ts of
                (Ok DeqTimeout, w4, ts') \<Rightarrow> dequeue_loop timeout w4 ts'
              | (Ok DeqError, w4, ts') \<Rightarrow> (Exn BackendError, w4, ts')
              | (Ok DeqNone, w4, ts') \<Rightarrow> (Ok None, set_state WS_IDLE w4, ts')
              | (Ok (DeqJob j q), w4, ts') \<Rightarrow>
                  (Ok (Some (j, q)), act (LogInfo (JobInfo q j)) (set_state WS_IDLE w4), ts')
              | (Exn e, w4, ts') \<Rightarrow> (Exn e, w4, ts')
              | (Exit, w4, ts') \<Rightarrow> (Exit, w4, ts')
              | (Blocked, w4, ts') \<Rightarrow> (Blocked, w4, ts'))
         | (Exn e, w3, ts) \<Rightarrow> (Exn e, w3, ts)
         | (Exit, w3, ts) \<Rightarrow> (Exit, w3, ts)
         | (Blocked, w3, ts) \<Rightarrow> (Blocked, w3, ts)))"
  by pat_completeness auto
termination
  by (relation "measure (\<lambda>(timeout, w, ticks). length ticks)")
     (auto dest!: blocking_Ok_length [OF sym] wait_while_full_length [OF sym])

declare dequeue_loop.simps [simp del]

text \<open>
  One round of the loop, given what the wait and the blocking call returned: the only
  recursive call is the one after \<^verbatim>\<open>DequeueTimeout\<close>.
\<close>

lemma dequeue_loop_round:
  assumes "\<not> stop_requested w"
    and "wait_while_full (warn_if_full (heartbeat 0 w)) ticks = (r3, w3, ts3)"
    and "blocking (DequeueAny timeout) w3 ts3 = (r4, w4, ts4)"
  shows "dequeue_loop timeout w ticks =
      (case r3 of
         Ok _ \<Rightarrow> (case r4 of
              Ok DeqTimeout \<Rightarrow> dequeue_loop timeout w4 ts4
            | Ok DeqError \<Rightarrow> (Exn BackendError, w4, ts4)
            | Ok DeqNone \<Rightarrow> (Ok None, set_state WS_IDLE w4, ts4)
            | Ok (DeqJob j q) \<Rightarrow>
                (Ok (Some (j, q)), act (LogInfo (JobInfo q j)) (set_state WS_IDLE w4), ts4)
            | Exn e \<Rightarrow> (Exn e, w4, ts4)
            | Exit \<Rightarrow> (Exit, w4, ts4)
            | Blocked \<Rightarrow> (Blocked, w4, ts4))
       | Exn e \<Rightarrow> (Exn e, w3, ts3)
       | Exit \<Rightarrow> (Exit, w3, ts3)
       | Blocked \<Rightarrow> (Blocked, w3, ts3))"
  using assms
  by (subst dequeue_loop.simps) (simp split: res.splits deq_result.splits)

lemma dequeue_loop_length:
  "dequeue_loop timeout w ticks = (r, w', ts) \<Longrightarrow>
     length ts \<le> length ticks \<and> ((\<exists>x. r = Ok x) \<longrightarrow> length ts < length ticks)"
proof (induction timeout w ticks arbitrary: r w' ts rule: dequeue_loop.induct)
  case (1 timeout w ticks)
  show ?case
  proof (cases "stop_requested w")
    case True
    with "1.prems" show ?thesis by (auto simp: dequeue_loop.simps)
  next
    case False
    obtain r3 w3 ts3 where ww: "wait_while_full (warn_if_full (heartbeat 0 w)) ticks = (r3, w3, ts3)"
      by (cases "wait_while_full (warn_if_full (heartbeat 0 w)) ticks") auto
    have le3: "length ts3 \<le> length ticks" using ww by (rule wait_while_full_length)
    obtain r4 w4 ts4 where bl: "blocking (DequeueAny timeout) w3 ts3 = (r4, w4, ts4)"
      by (cases "blocking (DequeueAny timeout) w3 ts3") auto
    have le4: "length ts4 \<le> length ts3" using bl by (rule blocking_length)
    note unf = dequeue_loop_round [OF False ww bl]
    show ?thesis
    proof (cases r3)
      case (Ok u)
      show ?thesis
      proof (cases r4)
        case Ok4: (Ok d)
        have lt4: "length ts4 < length ts3" using bl Ok4 by (auto dest: blocking_Ok_length)
        show ?thesis
        proof (cases d)
          case DeqTimeout
          with unf Ok Ok4 "1.prems" have rec: "dequeue_loop timeout w4 ts4 = (r, w', ts)" by simp
          have "length ts \<le> length ts4"
            using "1.IH" [OF False ww [symmetric] Ok refl
                bl [symmetric] Ok4 [unfolded DeqTimeout] refl refl rec]
            by simp
          with lt4 le3 show ?thesis by simp
        qed (use unf Ok Ok4 "1.prems" lt4 le3 in auto)
      qed (use unf Ok "1.prems" le3 le4 in auto)
    qed (use unf "1.prems" le3 in auto)
  qed
qed

text \<open>Lines 193 to 229.\<close>

definition dequeue_job_and_maintain_ttl ::
  "int option \<Rightarrow> worker \<Rightarrow> script \<Rightarrow> (job \<times> queue) option res \<times> worker \<times> script" where
  "dequeue_job_and_maintain_ttl timeout w ticks =
     (if stop_requested w then (Exn StopRequested, w, ticks)
      else
        (case dequeue_loop timeout w ticks of
           (Ok result, w1, ts) \<Rightarrow> (Ok result, heartbeat 0 w1, ts)
         | (Exn e, w1, ts) \<Rightarrow> (Exn e, w1, ts)
         | (Exit, w1, ts) \<Rightarrow> (Exit, w1, ts)
         | (Blocked, w1, ts) \<Rightarrow> (Blocked, w1, ts)))"

lemma dequeue_job_and_maintain_ttl_length:
  "dequeue_job_and_maintain_ttl timeout w ticks = (r, w', ts) \<Longrightarrow>
     length ts \<le> length ticks \<and> ((\<exists>x. r = Ok x) \<longrightarrow> length ts < length ticks)"
  by (auto simp: dequeue_job_and_maintain_ttl_def
      split: if_splits prod.splits res.splits dest: dequeue_loop_length)

subsection \<open>Admission\<close>

text \<open>
  \<^verbatim>\<open>gevent_pool.spawn\<close>: at capacity the caller waits for a slot; then the execution
  joins the pool. The entry of the pool stands for the greenlet with \<^verbatim>\<open>job_done\<close>
  linked to it.
\<close>

fun pool_spawn :: "job \<Rightarrow> queue \<Rightarrow> worker \<Rightarrow> script \<Rightarrow> unit res \<times> worker \<times> script" where
  "pool_spawn j q w [] =
     (if full w then (Blocked, w, [])
      else (Ok (), (act (Spawn j q) w)\<lparr>pool := pool w @ [(j, q)]\<rparr>, []))"
| "pool_spawn j q w (t # ts) =
     (if full w then
        (case yield (events t) w of
           (Exited, w') \<Rightarrow> (Exit, w', ts)
         | (Thrown, w') \<Rightarrow> (Exn StopRequested, w', ts)
         | (Resume, w') \<Rightarrow> pool_spawn j q w' ts)
      else (Ok (), (act (Spawn j q) w)\<lparr>pool := pool w @ [(j, q)]\<rparr>, t # ts))"

text \<open>Lines 183 to 191.\<close>

definition execute_job :: "job \<Rightarrow> queue \<Rightarrow> worker \<Rightarrow> script \<Rightarrow> unit res \<times> worker \<times> script" where
  "execute_job j q w ticks = pool_spawn j q w ticks"

lemma pool_spawn_length: "pool_spawn j q w ticks = (r, w', ts) \<Longrightarrow> length ts \<le> length ticks"
proof (induction ticks arbitrary: w)
  case Nil
  then show ?case by (auto split: if_splits)
next
  case (Cons t ticks)
  then show ?case
    by (fastforce split: if_splits prod.splits interrupt.splits)
qed

subsection \<open>The work loop\<close>

text \<open>\<^verbatim>\<open>except StopRequested: break\<close>. The value \<open>None\<close> stands for \<^verbatim>\<open>break\<close>.\<close>

fun except_StopRequested ::
  "(job \<times> queue) option res \<times> worker \<times> script \<Rightarrow> (job \<times> queue) option res \<times> worker \<times> script" where
  "except_StopRequested (Exn StopRequested, w, ts) = (Ok None, w, ts)"
| "except_StopRequested other = other"

text \<open>Lines 129 to 132: the suspension check and the maintenance tasks.\<close>

definition loop_head :: "bool \<Rightarrow> worker \<Rightarrow> worker" where
  "loop_head burst w =
     (let w1 = check_for_suspension burst w
      in if maintenance_due w1 then run_maintenance_tasks w1 else w1)"

text \<open>Lines 129 to 152, the body of the inner \<^verbatim>\<open>try\<close>.\<close>

definition try_body ::
  "bool \<Rightarrow> worker \<Rightarrow> script \<Rightarrow> (job \<times> queue) option res \<times> worker \<times> script" where
  "try_body burst w ticks =
     (let w2 = loop_head burst w
      in if stop_requested w2 then (Ok None, act (LogInfo StoppingOnRequest) w2, ticks)
         else
           (let timeout = dequeue_timeout burst (default_worker_ttl w2)
            in case dequeue_job_and_maintain_ttl timeout w2 ticks of
                 (Ok None, w3, ts) \<Rightarrow>
                   if burst then
                     (case blocking HubSwitch (act (LogInfo DoneQuitting) w3) ts of
                        (Ok _, w4, ts') \<Rightarrow> dequeue_job_and_maintain_ttl timeout w4 ts'
                      | (Exn e, w4, ts') \<Rightarrow> (Exn e, w4, ts')
                      | (Exit, w4, ts') \<Rightarrow> (Exit, w4, ts')
                      | (Blocked, w4, ts') \<Rightarrow> (Blocked, w4, ts'))
                   else (Ok None, w3, ts)
               | other \<Rightarrow> other))"

text \<open>Lines 127 to 157: one iteration is the inner \<^verbatim>\<open>try\<close>, then the admission.\<close>

lemma try_body_length:
  "try_body burst w ticks = (r, w', ts) \<Longrightarrow>
     length ts \<le> length ticks \<and> ((\<exists>x. r = Ok (Some x)) \<longrightarrow> length ts < length ticks)"
  by (auto simp: try_body_def Let_def
      split: if_splits prod.splits res.splits option.splits
      dest!: dequeue_job_and_maintain_ttl_length blocking_length)

lemma except_StopRequested_length:
  "except_StopRequested (try_body burst w ticks) = (r, w', ts) \<Longrightarrow>
     length ts \<le> length ticks \<and> ((\<exists>x. r = Ok (Some x)) \<longrightarrow> length ts < length ticks)"
  by (cases "try_body burst w ticks" rule: except_StopRequested.cases)
     (auto dest!: try_body_length)

function work_loop :: "bool \<Rightarrow> worker \<Rightarrow> script \<Rightarrow> unit res \<times> worker \<times> script" where
  "work_loop burst w ticks =
     (case except_StopRequested (try_body burst w ticks) of
        (Ok None, w1, ts) \<Rightarrow> (Ok (), w1, ts)
      | (Ok (Some (j, q)), w1, ts) \<Rightarrow>
          (case execute_job j q w1 ts of
             (Ok _, w2, ts') \<Rightarrow> work_loop burst w2 ts'
           | (Exn e, w2, ts') \<Rightarrow> (Exn e, w2, ts')
           | (Exit, w2, ts') \<Rightarrow> (Exit, w2, ts')
           | (Blocked, w2, ts') \<Rightarrow> (Blocked, w2, ts'))
      | (Exn e, w1, ts) \<Rightarrow> (Exn e, w1, ts)
      | (Exit, w1, ts) \<Rightarrow> (Exit, w1, ts)
      | (Blocked, w1, ts) \<Rightarrow> (Blocked, w1, ts))"
  by pat_completeness auto
termination
  by (relation "measure (\<lambda>(burst, w, ticks). length ticks)")
     (auto simp: execute_job_def
       dest!: except_StopRequested_length [OF sym] pool_spawn_length [OF sym])

declare work_loop.simps [simp del]

text \<open>Lines 111 to 124.\<close>

definition setup_scheduler :: "bool \<Rightarrow> string \<Rightarrow> string \<Rightarrow> string \<Rightarrow> worker \<Rightarrow> worker" where
  "setup_scheduler burst logging_level date_format log_format w =
     (let w1 = (act (CreateScheduler logging_level date_format log_format) w)\<lparr>scheduler := True\<rparr>;
          w2 = act AcquireLocks w1
      in if acquired_locks w2 then
           (if burst then act ReleaseLocks (act EnqueueScheduledJobs w2)
            else act StartScheduler w2)
         else w2)"

text \<open>Lines 159 to 164.\<close>

definition finally_block :: "worker \<Rightarrow> worker" where
  "finally_block w =
     (if \<not> is_horse w then
        register_death (if scheduler w then stop_scheduler w else w)
      else w)"

definition DEFAULT_LOGGING_DATE_FORMAT :: string where
  "DEFAULT_LOGGING_DATE_FORMAT = ''%H:%M:%S''"

definition DEFAULT_LOGGING_FORMAT :: string where
  "DEFAULT_LOGGING_FORMAT = ''%(asctime)s %(message)s''"

text \<open>Lines 102 to 124: what \<^verbatim>\<open>_work\<close> does before it enters the loop.\<close>

definition startup :: "bool \<Rightarrow> string \<Rightarrow> string \<Rightarrow> string \<Rightarrow> bool \<Rightarrow> worker \<Rightarrow> worker" where
  "startup burst logging_level date_format log_format with_scheduler w =
     (let w1 = act (SetupLoghandlers logging_level) w;
          w2 = install_signal_handlers w1;
          w3 = w2\<lparr>did_perform_work := False\<rparr>;
          w4 = register_birth w3;
          w5 = act (LogInfo (WorkerStarted (pool_size w4))) w4;
          w6 = set_state WS_STARTED w5
      in if with_scheduler
         then setup_scheduler burst logging_level date_format log_format w6
         else w6)"

text \<open>
  \<^verbatim>\<open>_work\<close>, lines 90 to 165. \<open>Ok b\<close> is \<^verbatim>\<open>return self.did_perform_work\<close>; an
  exception leaves through the \<^verbatim>\<open>finally\<close> block. When the cold handler ends the
  process, or the run is still blocked, the \<^verbatim>\<open>finally\<close> block has not run.
\<close>

definition private_work ::
  "bool \<Rightarrow> string \<Rightarrow> string \<Rightarrow> string \<Rightarrow> int option \<Rightarrow> bool \<Rightarrow> worker \<Rightarrow> script
     \<Rightarrow> bool res \<times> worker \<times> script" where
  "private_work burst logging_level date_format log_format max_jobs with_scheduler w ticks =
     (case work_loop burst
             (startup burst logging_level date_format log_format with_scheduler w) ticks of
        (Ok _, w8, ts) \<Rightarrow>
          (let w9 = finally_block w8 in (Ok (did_perform_work w9), w9, ts))
      | (Exn e, w8, ts) \<Rightarrow> (Exn e, finally_block w8, ts)
      | (Exit, w8, ts) \<Rightarrow> (Exit, w8, ts)
      | (Blocked, w8, ts) \<Rightarrow> (Blocked, w8, ts))"

text \<open>
  \<^verbatim>\<open>work\<close>, lines 167 to 181. Outside burst mode the loop runs in a greenlet of its own;
  the caller reads the greenlet's \<^verbatim>\<open>value\<close>, which is \<^verbatim>\<open>None\<close> when the greenlet died
  of an exception.
\<close>

definition work ::
  "bool \<Rightarrow> string \<Rightarrow> string \<Rightarrow> string \<Rightarrow> int option \<Rightarrow> bool \<Rightarrow> worker \<Rightarrow> script
     \<Rightarrow> bool option res \<times> worker \<times> script" where
  "work burst logging_level date_format log_format max_jobs with_scheduler w ticks =
     (if burst then
        (case private_work burst logging_level DEFAULT_LOGGING_DATE_FORMAT
                DEFAULT_LOGGING_FORMAT None with_scheduler w ticks of
           (Ok b, w', ts) \<Rightarrow> (Ok (Some b), w', ts)
         | (Exn e, w', ts) \<Rightarrow> (Exn e, w', ts)
         | (Exit, w', ts) \<Rightarrow> (Exit, w', ts)
         | (Blocked, w', ts) \<Rightarrow> (Blocked, w', ts))
      else
        (case private_work burst ''INFO'' DEFAULT_LOGGING_DATE_FORMAT
                DEFAULT_LOGGING_FORMAT None with_scheduler (w\<lparr>gevent_worker := True\<rparr>) ticks of
           (Ok b, w', ts) \<Rightarrow> (Ok (Some b), w', ts)
         | (Exn e, w', ts) \<Rightarrow> (Ok None, w', ts)
         | (Exit, w', ts) \<Rightarrow> (Exit, w', ts)
         | (Blocked, w', ts) \<Rightarrow> (Blocked, w', ts)))"


section \<open>Runs and their traces\<close>

text \<open>
  The actions a method adds to the trace, and how the worker after a method relates to
  the worker before it. The in-flight count is read off the trace: an admission adds one,
  a finished greenlet removes one, \<^verbatim>\<open>kill\<close> empties the pool.
\<close>


definition extends :: "worker \<Rightarrow> worker \<Rightarrow> bool" where
  "extends w w' = (take (length (trace w)) (trace w') = trace w)"

definition new_actions :: "worker \<Rightarrow> worker \<Rightarrow> action list" where
  "new_actions w w' = drop (length (trace w)) (trace w')"

definition pool_effect :: "action \<Rightarrow> nat \<Rightarrow> nat" where
  "pool_effect a n =
     (case a of Spawn j q \<Rightarrow> Suc n | GreenletFinished j st \<Rightarrow> n - 1 | PoolKill \<Rightarrow> 0 | _ \<Rightarrow> n)"

primrec inflight :: "nat \<Rightarrow> action list \<Rightarrow> nat" where
  "inflight n [] = n"
| "inflight n (a # tr) = inflight (pool_effect a n) tr"

definition plain :: "action \<Rightarrow> bool" where
  "plain a =
     (case a of
        Spawn j q \<Rightarrow> False
      | GreenletFinished j st \<Rightarrow> False
      | PoolKill \<Rightarrow> False
      | LogWarning m \<Rightarrow> m \<noteq> WarmShutDownRequested
      | _ \<Rightarrow> True)"

definition is_finished :: "action \<Rightarrow> bool" where
  "is_finished a = (case a of GreenletFinished j st \<Rightarrow> True | _ \<Rightarrow> False)"

definition warm_in :: "action list \<Rightarrow> bool" where
  "warm_in tr = (LogWarning WarmShutDownRequested \<in> set tr)"

definition finished_in :: "action list \<Rightarrow> bool" where
  "finished_in tr = (\<exists>a \<in> set tr. is_finished a)"

definition bounded :: "nat \<Rightarrow> nat \<Rightarrow> action list \<Rightarrow> bool" where
  "bounded c n tr = (\<forall>k. inflight n (take k tr) \<le> c)"

definition rel :: "worker \<Rightarrow> worker \<Rightarrow> bool" where
  "rel w w' =
     (extends w w' \<and>
      pool_size w' = pool_size w \<and>
      default_worker_ttl w' = default_worker_ttl w \<and>
      is_horse w' = is_horse w \<and>
      scheduler w' = scheduler w \<and>
      gevent_worker w' = gevent_worker w \<and>
      (stop_requested w' \<longleftrightarrow> stop_requested w \<or> warm_in (new_actions w w')) \<and>
      (did_perform_work w' \<longleftrightarrow> did_perform_work w \<or> finished_in (new_actions w w')) \<and>
      length (pool w') = inflight (length (pool w)) (new_actions w w') \<and>
      bounded (max (length (pool w)) (pool_size w)) (length (pool w)) (new_actions w w'))"

lemma extends_iff: "extends w w' \<longleftrightarrow> trace w' = trace w @ new_actions w w'"
  unfolding extends_def new_actions_def
  by (metis append_take_drop_id append_eq_conv_conj)

lemma extendsI: "trace w' = trace w @ tr \<Longrightarrow> extends w w' \<and> new_actions w w' = tr"
  by (simp add: extends_def new_actions_def)

lemma new_actions_trans:
  assumes "extends w w1" "extends w1 w2"
  shows "extends w w2 \<and> new_actions w w2 = new_actions w w1 @ new_actions w1 w2"
proof -
  from assms have "trace w2 = trace w @ (new_actions w w1 @ new_actions w1 w2)"
    by (simp add: extends_iff)
  then show ?thesis by (rule extendsI)
qed

lemma inflight_append: "inflight n (tr @ tr') = inflight (inflight n tr) tr'"
  by (induction tr arbitrary: n) auto

lemma pool_effect_plain: "plain a \<Longrightarrow> pool_effect a n = n"
  by (cases a) (auto simp: plain_def pool_effect_def)

lemma bounded_Nil: "bounded c n [] = (n \<le> c)"
  by (simp add: bounded_def)

lemma bounded_start: "bounded c n tr \<Longrightarrow> n \<le> c"
  unfolding bounded_def by (drule spec [of _ 0]) simp

lemma bounded_end: "bounded c n tr \<Longrightarrow> inflight n tr \<le> c"
  unfolding bounded_def by (drule spec [of _ "length tr"]) simp

lemma bounded_append:
  "bounded c n (tr @ tr') \<longleftrightarrow> bounded c n tr \<and> bounded c (inflight n tr) tr'"
proof
  assume b: "bounded c n (tr @ tr')"
  have "bounded c n tr"
    unfolding bounded_def
  proof
    fix k
    have "take (min k (length tr)) (tr @ tr') = take k tr" by (simp add: min_def)
    with b show "inflight n (take k tr) \<le> c" unfolding bounded_def by metis
  qed
  moreover have "bounded c (inflight n tr) tr'"
    unfolding bounded_def
  proof
    fix k
    have "take (length tr + k) (tr @ tr') = tr @ take k tr'" by simp
    with b have "inflight n (tr @ take k tr') \<le> c" unfolding bounded_def by metis
    then show "inflight (inflight n tr) (take k tr') \<le> c" by (simp add: inflight_append)
  qed
  ultimately show "bounded c n tr \<and> bounded c (inflight n tr) tr'" ..
next
  assume a: "bounded c n tr \<and> bounded c (inflight n tr) tr'"
  show "bounded c n (tr @ tr')"
    unfolding bounded_def
  proof
    fix k
    show "inflight n (take k (tr @ tr')) \<le> c"
    proof (cases "k \<le> length tr")
      case True
      with a show ?thesis by (simp add: bounded_def)
    next
      case False
      then have "take k (tr @ tr') = tr @ take (k - length tr) tr'" by simp
      with a show ?thesis by (simp add: bounded_def inflight_append)
    qed
  qed
qed

lemma bounded_mono: "bounded c n tr \<Longrightarrow> c \<le> c' \<Longrightarrow> bounded c' n tr"
  unfolding bounded_def by (meson le_trans)

lemma relD:
  assumes "rel w w'"
  shows "extends w w'"
    and "pool_size w' = pool_size w"
    and "default_worker_ttl w' = default_worker_ttl w"
    and "is_horse w' = is_horse w"
    and "scheduler w' = scheduler w"
    and "gevent_worker w' = gevent_worker w"
    and "stop_requested w' \<longleftrightarrow> stop_requested w \<or> warm_in (new_actions w w')"
    and "did_perform_work w' \<longleftrightarrow> did_perform_work w \<or> finished_in (new_actions w w')"
    and "length (pool w') = inflight (length (pool w)) (new_actions w w')"
    and "bounded (max (length (pool w)) (pool_size w)) (length (pool w)) (new_actions w w')"
  using assms unfolding rel_def by blast+

lemma relI:
  assumes "extends w w'"
    and "pool_size w' = pool_size w"
    and "default_worker_ttl w' = default_worker_ttl w"
    and "is_horse w' = is_horse w"
    and "scheduler w' = scheduler w"
    and "gevent_worker w' = gevent_worker w"
    and "stop_requested w' \<longleftrightarrow> stop_requested w \<or> warm_in (new_actions w w')"
    and "did_perform_work w' \<longleftrightarrow> did_perform_work w \<or> finished_in (new_actions w w')"
    and "length (pool w') = inflight (length (pool w)) (new_actions w w')"
    and "bounded (max (length (pool w)) (pool_size w)) (length (pool w)) (new_actions w w')"
  shows "rel w w'"
  unfolding rel_def using assms by blast

lemma warm_in_append: "warm_in (tr @ tr') \<longleftrightarrow> warm_in tr \<or> warm_in tr'"
  by (auto simp: warm_in_def)

lemma finished_in_append: "finished_in (tr @ tr') \<longleftrightarrow> finished_in tr \<or> finished_in tr'"
  by (auto simp: finished_in_def)

lemma rel_refl: "rel w w"
  by (rule relI) (simp_all add: extends_def new_actions_def warm_in_def finished_in_def bounded_Nil)

lemma rel_trans:
  assumes "rel w w1" "rel w1 w2"
  shows "rel w w2"
proof -
  note a = relD [OF assms(1)] and b = relD [OF assms(2)]
  note n = new_actions_trans [OF a(1) b(1)]
  let ?n = "length (pool w)" and ?c = "pool_size w"
  have "length (pool w1) \<le> max ?n ?c" using bounded_end [OF a(10)] a(9) by simp
  then have "max (length (pool w1)) (pool_size w1) \<le> max ?n ?c" using a(2) by simp
  with b(10) have b2': "bounded (max ?n ?c) (inflight ?n (new_actions w w1)) (new_actions w1 w2)"
    using a(9) by (metis bounded_mono)
  have B: "bounded (max ?n ?c) ?n (new_actions w w2)"
    using a(10) b2' n by (simp add: bounded_append)
  have L: "length (pool w2) = inflight ?n (new_actions w w2)"
    using a(9) b(9) n by (simp add: inflight_append)
  have S: "stop_requested w2 \<longleftrightarrow> stop_requested w \<or> warm_in (new_actions w w2)"
    using a(7) b(7) n by (simp add: warm_in_append)
  have D: "did_perform_work w2 \<longleftrightarrow> did_perform_work w \<or> finished_in (new_actions w w2)"
    using a(8) b(8) n by (simp add: finished_in_append)
  show ?thesis
    by (rule relI)
       (use n B L S D a(2-6) b(2-6) in simp_all)
qed


lemma bounded_Cons: "bounded c n (a # tr) \<longleftrightarrow> n \<le> c \<and> bounded c (pool_effect a n) tr"
proof -
  have "bounded c n ([a] @ tr) \<longleftrightarrow> bounded c n [a] \<and> bounded c (inflight n [a]) tr"
    by (rule bounded_append)
  moreover have "bounded c n [a] \<longleftrightarrow> n \<le> c \<and> pool_effect a n \<le> c"
  proof
    assume b: "bounded c n [a]"
    from bounded_start [OF b] bounded_end [OF b] show "n \<le> c \<and> pool_effect a n \<le> c" by simp
  next
    assume a: "n \<le> c \<and> pool_effect a n \<le> c"
    show "bounded c n [a]"
      unfolding bounded_def
    proof
      fix k show "inflight n (take k [a]) \<le> c" using a by (cases k) auto
    qed
  qed
  moreover have "bounded c (pool_effect a n) tr \<Longrightarrow> pool_effect a n \<le> c"
    by (rule bounded_start)
  ultimately show ?thesis by auto
qed

text \<open>The actions of the other greenlets: completions and signal handlers.\<close>

definition env_action :: "action \<Rightarrow> bool" where
  "env_action a =
     (case a of
        GreenletFinished j st \<Rightarrow> True
      | Heartbeat t n \<Rightarrow> t = 0
      | EnqueueDependents q j \<Rightarrow> True
      | KillWorker \<Rightarrow> True
      | StopScheduler \<Rightarrow> True
      | InstallHandler h \<Rightarrow> h = RequestForceStop
      | LogWarning m \<Rightarrow> m = WarmShutDownRequested \<or> m = StoppingAfterGreenlets \<or> m = ColdShutDown
      | PoolJoin \<Rightarrow> True
      | PoolKill \<Rightarrow> True
      | _ \<Rightarrow> False)"

definition ext :: "(action \<Rightarrow> bool) \<Rightarrow> worker \<Rightarrow> worker \<Rightarrow> bool" where
  "ext A w w' = (rel w w' \<and> list_all A (new_actions w w'))"

lemma ext_refl: "ext A w w"
  by (simp add: ext_def rel_refl new_actions_def)

lemma ext_trans: "ext A w w1 \<Longrightarrow> ext A w1 w2 \<Longrightarrow> ext A w w2"
  unfolding ext_def
  using new_actions_trans [of w w1 w2] relD(1) [of w w1] relD(1) [of w1 w2] rel_trans [of w w1 w2]
  by auto

lemma ext_mono: "ext A w w' \<Longrightarrow> (\<And>a. A a \<Longrightarrow> B a) \<Longrightarrow> ext B w w'"
  unfolding ext_def by (auto simp: list_all_iff)

lemma ext_step:
  assumes "trace w' = trace w @ tr"
    and "list_all A tr"
    and "pool_size w' = pool_size w"
    and "default_worker_ttl w' = default_worker_ttl w"
    and "is_horse w' = is_horse w"
    and "scheduler w' = scheduler w"
    and "gevent_worker w' = gevent_worker w"
    and "stop_requested w' \<longleftrightarrow> stop_requested w \<or> warm_in tr"
    and "did_perform_work w' \<longleftrightarrow> did_perform_work w \<or> finished_in tr"
    and "length (pool w') = inflight (length (pool w)) tr"
    and "bounded (max (length (pool w)) (pool_size w)) (length (pool w)) tr"
  shows "ext A w w'"
proof -
  note e = extendsI [OF assms(1)]
  have "rel w w'"
    by (rule relI) (use e assms in simp_all)
  with e assms(2) show ?thesis by (simp add: ext_def)
qed

lemma ext_act: "plain a \<Longrightarrow> A a \<Longrightarrow> ext A w (act a w)"
  by (rule ext_step [where tr = "[a]"])
     (auto simp: act_def warm_in_def finished_in_def bounded_Cons bounded_Nil pool_effect_plain
        plain_def is_finished_def split: action.splits)

lemma ext_heartbeat: "A (Heartbeat t (length (pool w))) \<Longrightarrow> ext A w (heartbeat t w)"
  unfolding heartbeat_def by (rule ext_act) (simp_all add: plain_def)

lemma ext_set_state: "A (SetState s) \<Longrightarrow> ext A w (set_state s w)"
  unfolding set_state_def by (rule ext_act) (simp_all add: plain_def)

lemma ext_field:
  "ext A w w' \<Longrightarrow> ext A w (w'\<lparr>killed := k\<rparr>)"
  "ext A w w' \<Longrightarrow> ext A w (w'\<lparr>joining := jn\<rparr>)"
  "ext A w w' \<Longrightarrow> ext A w (w'\<lparr>handler := h\<rparr>)"
  "ext A w w' \<Longrightarrow> ext A w (w'\<lparr>maintenance_due := m\<rparr>)"
  unfolding ext_def rel_def extends_def new_actions_def by simp_all

lemma ext_job_done:
  assumes "\<And>a. env_action a \<Longrightarrow> A a"
  shows "ext A w (greenlet_finished i st w)"
proof (cases "i < length (pool w)")
  case False
  then show ?thesis by (simp add: greenlet_finished_def ext_refl)
next
  case True
  obtain j q where jq: "pool w ! i = (j, q)" by (cases "pool w ! i") auto
  let ?tr = "[GreenletFinished j st, Heartbeat 0 (length (pool w) - 1)]
               @ (if st = FINISHED then [EnqueueDependents q j] else [])"
  have len: "length (take i (pool w) @ drop (Suc i) (pool w)) = length (pool w) - 1"
    using True by simp
  have A: "list_all A ?tr" using assms by (simp add: env_action_def)
  show ?thesis
    by (rule ext_step [where tr = ?tr, OF _ A])
       (use True jq len in \<open>auto simp: greenlet_finished_def job_done_def heartbeat_def act_def Let_def
          warm_in_def finished_in_def bounded_Cons bounded_Nil pool_effect_def is_finished_def\<close>)
qed

lemma ext_join_wakeup:
  assumes "\<And>a. env_action a \<Longrightarrow> A a"
  shows "ext A w (join_wakeup w)"
proof -
  have k: "ext A w (act KillWorker w)"
    by (rule ext_act) (simp_all add: plain_def assms env_action_def)
  have "ext A w (w\<lparr>joining := False\<rparr>)" by (rule ext_field) (rule ext_refl)
  moreover have "ext A w ((act KillWorker (w\<lparr>joining := False\<rparr>))\<lparr>killed := True\<rparr>)"
  proof -
    have "act KillWorker (w\<lparr>joining := False\<rparr>) = (act KillWorker w)\<lparr>joining := False\<rparr>"
      by (simp add: act_def)
    then show ?thesis using k by (simp add: ext_field)
  qed
  ultimately show ?thesis by (simp add: join_wakeup_def Let_def ext_refl)
qed


lemma ext_request_force_stop:
  assumes "\<And>a. env_action a \<Longrightarrow> A a"
  shows "ext A w (request_force_stop w)"
  by (rule ext_step [where tr = "[LogWarning ColdShutDown, PoolKill]"])
     (auto simp: request_force_stop_def act_def Let_def assms env_action_def
        warm_in_def finished_in_def bounded_Cons bounded_Nil pool_effect_def is_finished_def)

lemma ext_request_stop:
  assumes "\<And>a. env_action a \<Longrightarrow> A a"
  shows "ext A w (request_stop w)"
proof (cases "stop_requested w")
  case True
  then show ?thesis by (simp add: request_stop_def ext_refl)
next
  case False
  define w6 where "w6 = (act PoolJoin
      ((act (LogWarning StoppingAfterGreenlets) (act (LogWarning WarmShutDownRequested)
        ((act (InstallHandler RequestForceStop) (if scheduler w then stop_scheduler w else w))
          \<lparr>handler := RequestForceStop\<rparr>)))\<lparr>stop_requested := True\<rparr>))\<lparr>joining := True\<rparr>"
  let ?tr = "(if scheduler w then [StopScheduler] else []) @
      [InstallHandler RequestForceStop, LogWarning WarmShutDownRequested,
       LogWarning StoppingAfterGreenlets, PoolJoin]"
  have A: "list_all A ?tr" using assms by (simp add: env_action_def)
  have "ext A w w6"
    by (rule ext_step [where tr = ?tr, OF _ A])
       (auto simp: w6_def act_def stop_scheduler_def
          warm_in_def finished_in_def bounded_Cons bounded_Nil pool_effect_def is_finished_def)
  moreover have "ext A w6 (join_wakeup w6)" using assms by (rule ext_join_wakeup)
  moreover have "request_stop w = join_wakeup w6"
    using False by (simp add: request_stop_def w6_def Let_def)
  ultimately show ?thesis by (metis ext_trans)
qed

lemma ext_run_events:
  assumes "\<And>a. env_action a \<Longrightarrow> A a"
  shows "run_events es w = (b, w') \<Longrightarrow> ext A w w'"
proof (induction es arbitrary: w)
  case Nil
  then show ?case by (simp add: ext_refl)
next
  case (Cons e es)
  show ?case
  proof (cases e)
    case (Complete i st)
    have "ext A w (greenlet_finished i st w)" using assms by (rule ext_job_done)
    moreover have "ext A (greenlet_finished i st w) (join_wakeup (greenlet_finished i st w))"
      using assms by (rule ext_join_wakeup)
    moreover have "ext A (join_wakeup (greenlet_finished i st w)) w'"
      using Cons.prems Complete by (intro Cons.IH) simp
    ultimately show ?thesis by (metis ext_trans)
  next
    case Signal
    show ?thesis
    proof (cases "handler w")
      case RequestStop
      have "ext A w (request_stop w)" using assms by (rule ext_request_stop)
      moreover have "ext A (request_stop w) w'"
        using Cons.prems Signal RequestStop by (intro Cons.IH) simp
      ultimately show ?thesis by (metis ext_trans)
    next
      case RequestForceStop
      with Cons.prems Signal have "w' = request_force_stop w" by simp
      then show ?thesis using assms by (simp add: ext_request_force_stop)
    qed
  qed
qed

lemma ext_yield:
  assumes "\<And>a. env_action a \<Longrightarrow> A a"
  shows "yield es w = (i, w') \<Longrightarrow> ext A w w'"
  using ext_run_events [of A es w, OF assms]
  by (cases "run_events es w")
     (auto simp: yield_def ext_field split: if_splits bool.splits)

lemma ext_blocking:
  assumes "\<And>a. env_action a \<Longrightarrow> A a" and "plain a" and "A a"
  shows "blocking a w ticks = (r, w', ts) \<Longrightarrow> ext A w w'"
proof -
  assume b: "blocking a w ticks = (r, w', ts)"
  have 1: "ext A w (act a w)" using assms(2,3) by (rule ext_act)
  show ?thesis
  proof (cases ticks)
    case Nil
    with b 1 show ?thesis by (simp add: blocking_def)
  next
    case (Cons t ts')
    obtain i w1 where y: "yield (events t) (act a w) = (i, w1)"
      by (cases "yield (events t) (act a w)") auto
    have "ext A (act a w) w1" using assms(1) y by (rule ext_yield)
    moreover have "w' = w1" using b Cons y by (cases i) (simp_all add: blocking_def)
    ultimately show ?thesis using 1 by (metis ext_trans)
  qed
qed

lemma plain_simps:
  "plain (Sleep n)"
  "plain (DequeueAny t)"
  "plain HubSwitch"
  "plain (Heartbeat t' k)"
  "plain (SetState s)"
  "plain (LogInfo m)"
  "plain (LogWarning (PoolEmpty k))"
  "plain (CheckForSuspension b)"
  "plain RunMaintenanceTasks"
  by (simp_all add: plain_def)

lemma ext_wait_while_full:
  assumes "\<And>a. env_action a \<Longrightarrow> A a" and "A (Sleep 100)"
  shows "wait_while_full w ticks = (r, w', ts) \<Longrightarrow> ext A w w'"
proof (induction w ticks arbitrary: r w' ts rule: wait_while_full.induct)
  case (1 w ticks)
  show ?case
  proof (cases "full w")
    case False
    with "1.prems" show ?thesis by (simp add: wait_while_full.simps ext_refl)
  next
    case True
    obtain r1 w1 ts1 where b: "blocking (Sleep 100) w ticks = (r1, w1, ts1)"
      by (cases "blocking (Sleep 100) w ticks") auto
    have e1: "ext A w w1"
      by (rule ext_blocking [where A = A and a = "Sleep 100", OF assms(1) plain_simps(1) assms(2) b])
    show ?thesis
    proof (cases r1)
      case (Ok x)
      show ?thesis
      proof (cases "stop_requested w1")
        case True
        with "1.prems" \<open>full w\<close> b Ok e1 show ?thesis by (simp add: wait_while_full.simps)
      next
        case False
        with "1.prems" \<open>full w\<close> b Ok have "wait_while_full w1 ts1 = (r, w', ts)"
          by (simp add: wait_while_full.simps)
        then have "ext A w1 w'"
          by (rule "1.IH" [OF True b [symmetric] Ok refl False])
        with e1 show ?thesis by (metis ext_trans)
      qed
    qed (use "1.prems" True b e1 in \<open>auto simp: wait_while_full.simps\<close>)
  qed
qed


text \<open>The actions of a dequeue: its own calls and those of the other greenlets.\<close>

definition dequeue_action :: "int option \<Rightarrow> action \<Rightarrow> bool" where
  "dequeue_action timeout a =
     (env_action a \<or>
      (case a of
         Sleep n \<Rightarrow> n = 100
       | DequeueAny t \<Rightarrow> t = timeout
       | SetState s \<Rightarrow> s = WS_BUSY \<or> s = WS_IDLE
       | LogWarning m \<Rightarrow> (case m of PoolEmpty n \<Rightarrow> True | _ \<Rightarrow> False)
       | LogInfo m \<Rightarrow> (case m of JobInfo q j \<Rightarrow> True | _ \<Rightarrow> False)
       | _ \<Rightarrow> False))"

lemma dequeue_action_simps:
  "env_action a \<Longrightarrow> dequeue_action timeout a"
  "dequeue_action timeout (Sleep 100)"
  "dequeue_action timeout (DequeueAny timeout)"
  "dequeue_action timeout (Heartbeat 0 n)"
  "dequeue_action timeout (SetState WS_BUSY)"
  "dequeue_action timeout (SetState WS_IDLE)"
  "dequeue_action timeout (LogWarning (PoolEmpty n))"
  "dequeue_action timeout (LogInfo (JobInfo q j))"
  by (simp_all add: dequeue_action_def env_action_def)

lemma ext_warn_if_full:
  assumes "\<And>a. dequeue_action timeout a \<Longrightarrow> A a"
  shows "ext A w (warn_if_full w)"
proof (cases "full w")
  case False
  then show ?thesis by (simp add: warn_if_full_def ext_refl)
next
  case True
  have "ext A w (set_state WS_BUSY w)"
    by (rule ext_set_state) (simp add: assms dequeue_action_simps)
  moreover have "ext A (set_state WS_BUSY w)
      (act (LogWarning (PoolEmpty (pool_size w))) (set_state WS_BUSY w))"
    by (rule ext_act) (simp_all add: assms dequeue_action_simps plain_simps)
  ultimately show ?thesis using True by (simp add: warn_if_full_def) (metis ext_trans)
qed

lemma ext_dequeue_loop:
  "dequeue_loop timeout w ticks = (r, w', ts) \<Longrightarrow> ext (dequeue_action timeout) w w'"
proof (induction timeout w ticks arbitrary: r w' ts rule: dequeue_loop.induct)
  case (1 timeout w ticks)
  let ?A = "dequeue_action timeout"
  note run = "1.prems"
  have envA: "\<And>a. env_action a \<Longrightarrow> ?A a" by (simp add: dequeue_action_simps)
  show ?case
  proof (cases "stop_requested w")
    case True
    with run show ?thesis by (simp add: dequeue_loop.simps ext_refl)
  next
    case False
    obtain r3 w3 ts3 where ww: "wait_while_full (warn_if_full (heartbeat 0 w)) ticks = (r3, w3, ts3)"
      by (cases "wait_while_full (warn_if_full (heartbeat 0 w)) ticks") auto
    obtain r4 w4 ts4 where bl: "blocking (DequeueAny timeout) w3 ts3 = (r4, w4, ts4)"
      by (cases "blocking (DequeueAny timeout) w3 ts3") auto
    note unf = dequeue_loop_round [OF False ww bl]
    have "ext ?A w (heartbeat 0 w)"
      by (rule ext_heartbeat) (simp add: dequeue_action_simps)
    moreover have "ext ?A (heartbeat 0 w) (warn_if_full (heartbeat 0 w))"
      by (rule ext_warn_if_full [where timeout = timeout]) simp
    moreover have "ext ?A (warn_if_full (heartbeat 0 w)) w3"
      by (rule ext_wait_while_full [where A = ?A, OF envA _ ww]) (simp_all add: dequeue_action_simps)
    ultimately have e3: "ext ?A w w3" by (metis ext_trans)
    have "ext ?A w3 w4"
      by (rule ext_blocking [where A = ?A, OF envA plain_simps(2) _ bl])
         (simp_all add: dequeue_action_simps)
    with e3 have e4: "ext ?A w w4" by (metis ext_trans)
    have idle: "ext ?A w4 (set_state WS_IDLE w4)"
      by (rule ext_set_state) (simp add: dequeue_action_simps)
    have info: "ext ?A (set_state WS_IDLE w4) (act (LogInfo (JobInfo q j)) (set_state WS_IDLE w4))" for q j
      by (rule ext_act) (simp_all add: dequeue_action_simps plain_simps)
    show ?thesis
    proof (cases r3)
      case (Ok u)
      show ?thesis
      proof (cases r4)
        case Ok4: (Ok d)
        show ?thesis
        proof (cases d)
          case DeqTimeout
          with unf Ok Ok4 run have rec: "dequeue_loop timeout w4 ts4 = (r, w', ts)" by simp
          have "ext ?A w4 w'"
            by (rule "1.IH" [OF False ww [symmetric] Ok refl
                bl [symmetric] Ok4 [unfolded DeqTimeout] refl refl rec])
          with e4 show ?thesis by (metis ext_trans)
        next
          case DeqNone
          with unf Ok Ok4 run have "w' = set_state WS_IDLE w4" by simp
          with e4 idle show ?thesis by (metis ext_trans)
        next
          case (DeqJob j q)
          with unf Ok Ok4 run
          have "w' = act (LogInfo (JobInfo q j)) (set_state WS_IDLE w4)" by simp
          with e4 idle info show ?thesis by (metis ext_trans)
        next
          case DeqError
          with unf Ok Ok4 run e4 show ?thesis by simp
        qed
      qed (use unf Ok run e4 in auto)
    qed (use unf run e3 in auto)
  qed
qed

lemma ext_dequeue_job_and_maintain_ttl:
  assumes run: "dequeue_job_and_maintain_ttl timeout w ticks = (r, w', ts)"
  shows "ext (dequeue_action timeout) w w'"
proof (cases "stop_requested w")
  case True
  with run show ?thesis by (simp add: dequeue_job_and_maintain_ttl_def ext_refl)
next
  case False
  obtain r1 w1 ts1 where d: "dequeue_loop timeout w ticks = (r1, w1, ts1)"
    by (cases "dequeue_loop timeout w ticks") auto
  have e1: "ext (dequeue_action timeout) w w1" using d by (rule ext_dequeue_loop)
  have hb: "ext (dequeue_action timeout) w1 (heartbeat 0 w1)"
    by (rule ext_heartbeat) (simp add: dequeue_action_simps)
  show ?thesis
  proof (cases r1)
    case (Ok x)
    with run False d have "w' = heartbeat 0 w1"
      by (simp add: dequeue_job_and_maintain_ttl_def)
    with e1 hb show ?thesis by (metis ext_trans)
  qed (use run False d e1 in \<open>auto simp: dequeue_job_and_maintain_ttl_def\<close>)
qed


lemma ext_pool_spawn:
  assumes env: "\<And>a. env_action a \<Longrightarrow> A a" and sp: "A (Spawn j q)"
  shows "pool_spawn j q w ticks = (r, w', ts) \<Longrightarrow> ext A w w'"
proof (induction ticks arbitrary: w)
  case Nil
  show ?case
  proof (cases "full w")
    case True
    with Nil show ?thesis by (simp add: ext_refl)
  next
    case False
    with Nil have w': "w' = (act (Spawn j q) w)\<lparr>pool := pool w @ [(j, q)]\<rparr>" by simp
    show ?thesis unfolding w'
      by (rule ext_step [where tr = "[Spawn j q]"])
         (use False sp in \<open>auto simp: act_def full_def warm_in_def finished_in_def
            bounded_Cons bounded_Nil pool_effect_def is_finished_def\<close>)
  qed
next
  case (Cons t ticks)
  show ?case
  proof (cases "full w")
    case False
    with Cons.prems have w': "w' = (act (Spawn j q) w)\<lparr>pool := pool w @ [(j, q)]\<rparr>" by simp
    show ?thesis unfolding w'
      by (rule ext_step [where tr = "[Spawn j q]"])
         (use False sp in \<open>auto simp: act_def full_def warm_in_def finished_in_def
            bounded_Cons bounded_Nil pool_effect_def is_finished_def\<close>)
  next
    case True
    obtain i w1 where y: "yield (events t) w = (i, w1)" by (cases "yield (events t) w") auto
    have e1: "ext A w w1" using env y by (rule ext_yield)
    show ?thesis
    proof (cases i)
      case Resume
      with Cons.prems True y have "pool_spawn j q w1 ticks = (r, w', ts)" by simp
      then have "ext A w1 w'" by (rule Cons.IH)
      with e1 show ?thesis by (metis ext_trans)
    qed (use Cons.prems True y e1 in auto)
  qed
qed

text \<open>The actions of the work loop.\<close>

definition loop_action :: "bool \<Rightarrow> int \<Rightarrow> action \<Rightarrow> bool" where
  "loop_action burst ttl a =
     (dequeue_action (dequeue_timeout burst ttl) a \<or>
      (case a of
         CheckForSuspension b \<Rightarrow> b = burst
       | RunMaintenanceTasks \<Rightarrow> True
       | LogInfo m \<Rightarrow> m = StoppingOnRequest \<or> m = DoneQuitting
       | HubSwitch \<Rightarrow> True
       | Spawn j q \<Rightarrow> True
       | _ \<Rightarrow> False))"

lemma loop_action_simps:
  "dequeue_action (dequeue_timeout burst ttl) a \<Longrightarrow> loop_action burst ttl a"
  "env_action a \<Longrightarrow> loop_action burst ttl a"
  "loop_action burst ttl (CheckForSuspension burst)"
  "loop_action burst ttl RunMaintenanceTasks"
  "loop_action burst ttl (LogInfo StoppingOnRequest)"
  "loop_action burst ttl (LogInfo DoneQuitting)"
  "loop_action burst ttl HubSwitch"
  "loop_action burst ttl (Spawn j q)"
  by (simp_all add: loop_action_def dequeue_action_simps)

lemma ext_ttl: "ext A w w' \<Longrightarrow> default_worker_ttl w' = default_worker_ttl w"
  by (simp add: ext_def relD(3))

lemma try_body_stop:
  "stop_requested (loop_head burst w) \<Longrightarrow>
     try_body burst w ticks = (Ok None, act (LogInfo StoppingOnRequest) (loop_head burst w), ticks)"
  by (simp add: try_body_def)

lemma try_body_unfold:
  assumes "\<not> stop_requested (loop_head burst w)"
    and "timeout = dequeue_timeout burst (default_worker_ttl (loop_head burst w))"
  shows "try_body burst w ticks =
     (case dequeue_job_and_maintain_ttl timeout (loop_head burst w) ticks of
        (Ok None, w3, ts) \<Rightarrow>
          if burst then
            (case blocking HubSwitch (act (LogInfo DoneQuitting) w3) ts of
               (Ok _, w4, ts') \<Rightarrow> dequeue_job_and_maintain_ttl timeout w4 ts'
             | (Exn e, w4, ts') \<Rightarrow> (Exn e, w4, ts')
             | (Exit, w4, ts') \<Rightarrow> (Exit, w4, ts')
             | (Blocked, w4, ts') \<Rightarrow> (Blocked, w4, ts'))
          else (Ok None, w3, ts)
      | other \<Rightarrow> other)"
  using assms(1) unfolding assms(2) try_body_def Let_def by simp

lemma ext_loop_head: "ext (loop_action burst ttl) w (loop_head burst w)"
proof -
  let ?A = "loop_action burst ttl"
  let ?w1 = "check_for_suspension burst w"
  have e1: "ext ?A w ?w1"
    unfolding check_for_suspension_def
    by (rule ext_act) (simp_all add: plain_simps loop_action_simps)
  have "ext ?A ?w1 (act RunMaintenanceTasks ?w1)"
    by (rule ext_act) (simp_all add: plain_simps loop_action_simps)
  then have "ext ?A ?w1 (run_maintenance_tasks ?w1)"
    unfolding run_maintenance_tasks_def by (rule ext_field)
  with e1 have "ext ?A w (run_maintenance_tasks ?w1)" by (metis ext_trans)
  with e1 show ?thesis by (simp add: loop_head_def Let_def)
qed

lemma ext_try_body:
  assumes run: "try_body burst w ticks = (r, w', ts)"
  shows "ext (loop_action burst (default_worker_ttl w)) w w'"
proof -
  let ?A = "loop_action burst (default_worker_ttl w)"
  define w2 where "w2 = loop_head burst w"
  define timeout where "timeout = dequeue_timeout burst (default_worker_ttl w2)"
  have e2: "ext ?A w w2" unfolding w2_def by (rule ext_loop_head)
  have ttl: "default_worker_ttl w2 = default_worker_ttl w" using e2 by (rule ext_ttl)
  have deqA: "\<And>a. dequeue_action timeout a \<Longrightarrow> ?A a"
    by (simp add: timeout_def ttl loop_action_simps)
  show ?thesis
  proof (cases "stop_requested w2")
    case True
    with run have "w' = act (LogInfo StoppingOnRequest) w2"
      by (simp add: try_body_stop w2_def)
    moreover have "ext ?A w2 (act (LogInfo StoppingOnRequest) w2)"
      by (rule ext_act) (simp_all add: plain_simps loop_action_simps)
    ultimately show ?thesis using e2 by (metis ext_trans)
  next
    case False
    note unf = try_body_unfold [OF False [unfolded w2_def] timeout_def [unfolded w2_def], of ticks,
        folded w2_def]
    obtain r3 w3 ts3 where d1: "dequeue_job_and_maintain_ttl timeout w2 ticks = (r3, w3, ts3)"
      by (cases "dequeue_job_and_maintain_ttl timeout w2 ticks") auto
    have "ext ?A w2 w3"
      using ext_dequeue_job_and_maintain_ttl [OF d1] deqA by (rule ext_mono)
    with e2 have e3: "ext ?A w w3" by (metis ext_trans)
    show ?thesis
    proof (cases "r3 = Ok None \<and> burst")
      case False
      with run unf d1 have "w' = w3"
        by (auto split: res.splits option.splits if_splits)
      with e3 show ?thesis by simp
    next
      case True
      define w3' where "w3' = act (LogInfo DoneQuitting) w3"
      have "ext ?A w3 w3'" unfolding w3'_def
        by (rule ext_act) (simp_all add: plain_simps loop_action_simps)
      with e3 have e3': "ext ?A w w3'" by (metis ext_trans)
      obtain r4 w4 ts4 where b: "blocking HubSwitch w3' ts3 = (r4, w4, ts4)"
        by (cases "blocking HubSwitch w3' ts3") auto
      have "ext ?A w3' w4"
        by (rule ext_blocking [where A = ?A, OF _ plain_simps(3) _ b])
           (simp_all add: loop_action_simps)
      with e3' have e4: "ext ?A w w4" by (metis ext_trans)
      from run unf d1 True b
      have res: "(r, w', ts) = (case r4 of
            Ok _ \<Rightarrow> dequeue_job_and_maintain_ttl timeout w4 ts4
          | Exn e \<Rightarrow> (Exn e, w4, ts4) | Exit \<Rightarrow> (Exit, w4, ts4) | Blocked \<Rightarrow> (Blocked, w4, ts4))"
        by (simp add: w3'_def split: res.splits)
      show ?thesis
      proof (cases r4)
        case (Ok x)
        with res have d2: "dequeue_job_and_maintain_ttl timeout w4 ts4 = (r, w', ts)" by simp
        have "ext ?A w4 w'"
          using ext_dequeue_job_and_maintain_ttl [OF d2] deqA by (rule ext_mono)
        with e4 show ?thesis by (metis ext_trans)
      qed (use res e4 in auto)
    qed
  qed
qed

lemma except_StopRequested_worker:
  "except_StopRequested (r, w, ts) = (r', w', ts') \<Longrightarrow> w' = w \<and> ts' = ts"
  by (cases "(r, w, ts)" rule: except_StopRequested.cases) auto

lemma ext_work_loop:
  "work_loop burst w ticks = (r, w', ts) \<Longrightarrow> ext (loop_action burst (default_worker_ttl w)) w w'"
proof (induction burst w ticks arbitrary: r w' ts rule: work_loop.induct)
  case (1 burst w ticks)
  let ?A = "loop_action burst (default_worker_ttl w)"
  obtain r0 w0 ts0 where t: "try_body burst w ticks = (r0, w0, ts0)"
    by (cases "try_body burst w ticks") auto
  obtain r1 w1 ts1 where x: "except_StopRequested (try_body burst w ticks) = (r1, w1, ts1)"
    by (cases "except_StopRequested (try_body burst w ticks)") auto
  from x t have "w1 = w0" by (simp add: except_StopRequested_worker)
  with ext_try_body [OF t] have e1: "ext ?A w w1" by simp
  show ?case
  proof (cases r1)
    case (Ok v)
    show ?thesis
    proof (cases v)
      case None
      with "1.prems" x Ok e1 show ?thesis by (simp add: work_loop.simps)
    next
      case (Some jq)
      obtain j q where jq: "jq = (j, q)" by (cases jq) auto
      obtain r2 w2 ts2 where ex: "execute_job j q w1 ts1 = (r2, w2, ts2)"
        by (cases "execute_job j q w1 ts1") auto
      have "ext ?A w1 w2"
        by (rule ext_pool_spawn [where A = ?A, OF _ _ ex [unfolded execute_job_def]])
           (simp_all add: loop_action_simps)
      with e1 have e2: "ext ?A w w2" by (metis ext_trans)
      show ?thesis
      proof (cases r2)
        case Ok2: (Ok u)
        with "1.prems" x Ok Some jq ex have rec: "work_loop burst w2 ts2 = (r, w', ts)"
          by (simp add: work_loop.simps)
        have "ext (loop_action burst (default_worker_ttl w2)) w2 w'"
          by (rule "1.IH" [OF x [symmetric] Ok Some jq [symmetric] refl ex [symmetric] Ok2 refl rec])
        moreover have "default_worker_ttl w2 = default_worker_ttl w" using e2 by (rule ext_ttl)
        ultimately show ?thesis using e2 by (metis ext_trans)
      qed (use "1.prems" x Ok Some jq ex e2 in \<open>auto simp: work_loop.simps\<close>)
    qed
  qed (use "1.prems" x e1 in \<open>auto simp: work_loop.simps\<close>)
qed



section \<open>Properties of the worker\<close>

text \<open>The actions a run of a method added to the trace of the worker it started from.\<close>

definition run_trace :: "worker \<Rightarrow> 'a \<times> worker \<times> script \<Rightarrow> action list" where
  "run_trace w x = new_actions w (fst (snd x))"

lemma work_loop_ext:
  "ext (loop_action burst (default_worker_ttl w)) w (fst (snd (work_loop burst w ticks)))"
  by (rule ext_work_loop [where r = "fst (work_loop burst w ticks)"
        and ts = "snd (snd (work_loop burst w ticks))"]) simp

lemma work_loop_actions:
  "list_all (loop_action burst (default_worker_ttl w)) (run_trace w (work_loop burst w ticks))"
  using work_loop_ext [of burst w ticks] by (simp add: ext_def run_trace_def)

subsection \<open>The dequeue timeout\<close>

text \<open>
  C4, as amended. The timeout of line 138 is null in burst mode and the bounded value
  \<open>max 1 (ttl - 60)\<close> in continuous mode, and every \<^verbatim>\<open>dequeue_any\<close> of the work loop
  is called with that timeout. (The claim has the two modes the other way round.)
\<close>

theorem dequeue_timeout_by_mode:
  "dequeue_timeout True ttl = None \<and>
   dequeue_timeout False ttl = Some (max 1 (ttl - 60)) \<and>
   (\<forall>t. DequeueAny t \<in> set (run_trace w (work_loop burst w ticks)) \<longrightarrow>
        t = dequeue_timeout burst (default_worker_ttl w))"
proof -
  have "t = dequeue_timeout burst (default_worker_ttl w)"
    if "DequeueAny t \<in> set (run_trace w (work_loop burst w ticks))" for t
  proof -
    from that work_loop_actions [of burst w ticks]
    have "loop_action burst (default_worker_ttl w) (DequeueAny t)"
      by (simp add: list_all_iff)
    then show ?thesis by (simp add: loop_action_def dequeue_action_def env_action_def)
  qed
  then show ?thesis by (simp add: dequeue_timeout_def)
qed

theorem dequeue_timeout_by_mode_witness:
  "dequeue_timeout True 420 = None \<and>
   dequeue_timeout False 420 = Some 360 \<and>
   DequeueAny None \<in> set (run_trace (init (Some 2) 420 False)
      (work_loop True (init (Some 2) 420 False) [Tick [] DeqNone, Tick [] DeqNone, Tick [] DeqNone])) \<and>
   None = dequeue_timeout True (default_worker_ttl (init (Some 2) 420 False))"
proof -
  have h: "DequeueAny None \<in> set (run_trace (init (Some 2) 420 False)
      (work_loop True (init (Some 2) 420 False) [Tick [] DeqNone, Tick [] DeqNone, Tick [] DeqNone]))"
    by code_simp
  from dequeue_timeout_by_mode [of 420 "init (Some 2) 420 False" True
      "[Tick [] DeqNone, Tick [] DeqNone, Tick [] DeqNone]"] h
  show ?thesis by simp
qed

text \<open>
  C4 as stated fails: with a TTL of 420 seconds the continuous mode dequeues with the
  bounded timeout 360, not with null, and the burst mode dequeues with null.
\<close>

theorem dequeue_timeout_modes_counterexample:
  "dequeue_timeout False 420 = Some 360 \<and>
   dequeue_timeout True 420 = None \<and>
   DequeueAny (Some 360) \<in> set (run_trace (init (Some 2) 420 False)
      (work_loop False (init (Some 2) 420 False) [Tick [] DeqNone]))"
  by code_simp

text \<open>
  C5. Every bounded timeout that the work loop hands to \<^verbatim>\<open>dequeue_any\<close> is
  \<open>max 1 (default_worker_ttl - 60)\<close>: at least 1, and exactly 1 for a TTL of 60.
\<close>

theorem bounded_dequeue_timeout:
  assumes "DequeueAny (Some t) \<in> set (run_trace w (work_loop burst w ticks))"
  shows "dequeue_timeout burst (default_worker_ttl w) = Some t \<and>
         t = max 1 (default_worker_ttl w - 60) \<and> 1 \<le> t \<and>
         (default_worker_ttl w = 60 \<longrightarrow> t = 1)"
proof -
  from assms work_loop_actions [of burst w ticks]
  have "loop_action burst (default_worker_ttl w) (DequeueAny (Some t))"
    by (simp add: list_all_iff)
  then have "dequeue_timeout burst (default_worker_ttl w) = Some t"
    by (simp add: loop_action_def dequeue_action_def env_action_def)
  then show ?thesis by (auto simp: dequeue_timeout_def split: if_splits)
qed

theorem bounded_dequeue_timeout_witness:
  "DequeueAny (Some 1) \<in> set (run_trace (init (Some 2) 60 False)
      (work_loop False (init (Some 2) 60 False) [Tick [] DeqNone])) \<and>
   dequeue_timeout False (default_worker_ttl (init (Some 2) 60 False)) = Some 1 \<and>
   default_worker_ttl (init (Some 2) 60 False) = 60 \<and>
   (1::int) = max 1 (60 - 60)"
proof -
  have h: "DequeueAny (Some 1) \<in> set (run_trace (init (Some 2) 60 False)
      (work_loop False (init (Some 2) 60 False) [Tick [] DeqNone]))"
    by code_simp
  from bounded_dequeue_timeout [OF h] h show ?thesis by (simp add: init_def)
qed

subsection \<open>The completion callback\<close>



subsection \<open>The unused argument\<close>

text \<open>
  C10. The argument \<^verbatim>\<open>max_jobs\<close> of \<^verbatim>\<open>work\<close> and of \<^verbatim>\<open>_work\<close> has no effect:
  two calls that differ in it alone do the same and return the same.
\<close>

theorem max_jobs_has_no_effect:
  "work burst logging_level date_format log_format max_jobs with_scheduler w ticks =
     work burst logging_level date_format log_format max_jobs' with_scheduler w ticks \<and>
   private_work burst logging_level date_format log_format max_jobs with_scheduler w ticks =
     private_work burst logging_level date_format log_format max_jobs' with_scheduler w ticks"
  by (simp add: work_def private_work_def)


subsection \<open>Leaving the work loop\<close>


definition startup_actions :: "bool \<Rightarrow> string \<Rightarrow> string \<Rightarrow> string \<Rightarrow> bool \<Rightarrow> worker \<Rightarrow> action list" where
  "startup_actions burst logging_level date_format log_format with_scheduler w =
     [SetupLoghandlers logging_level, InstallHandler RequestStop, RegisterBirth (pool_size w),
      LogInfo (WorkerStarted (pool_size w)), SetState WS_STARTED] @
     (if with_scheduler then
        [CreateScheduler logging_level date_format log_format, AcquireLocks] @
        (if acquired_locks w then
           (if burst then [EnqueueScheduledJobs, ReleaseLocks] else [StartScheduler])
         else [])
      else [])"

lemma startup_fields:
  "trace (startup burst ll df lf ws w) = trace w @ startup_actions burst ll df lf ws w"
  "pool (startup burst ll df lf ws w) = pool w"
  "pool_size (startup burst ll df lf ws w) = pool_size w"
  "default_worker_ttl (startup burst ll df lf ws w) = default_worker_ttl w"
  "is_horse (startup burst ll df lf ws w) = is_horse w"
  "stop_requested (startup burst ll df lf ws w) = stop_requested w"
  "did_perform_work (startup burst ll df lf ws w) = False"
  "scheduler (startup burst ll df lf ws w) = (scheduler w \<or> ws)"
  "handler (startup burst ll df lf ws w) = RequestStop"
  "gevent_worker (startup burst ll df lf ws w) = gevent_worker w"
  "killed (startup burst ll df lf ws w) = killed w"
  "joining (startup burst ll df lf ws w) = joining w"
  "maintenance_due (startup burst ll df lf ws w) = maintenance_due w"
  by (simp_all add: startup_def startup_actions_def setup_scheduler_def install_signal_handlers_def
      register_birth_def set_state_def act_def Let_def)

definition finally_actions :: "worker \<Rightarrow> action list" where
  "finally_actions w =
     (if \<not> is_horse w then (if scheduler w then [StopScheduler] else []) @ [RegisterDeath] else [])"

lemma finally_fields:
  "trace (finally_block w) = trace w @ finally_actions w"
  "did_perform_work (finally_block w) = did_perform_work w"
  "pool (finally_block w) = pool w"
  by (simp_all add: finally_block_def finally_actions_def register_death_def stop_scheduler_def act_def)


lemma private_work_run:
  fixes burst ll df lf mj ws w ticks
  defines "w7 \<equiv> startup burst ll df lf ws w"
  defines "X \<equiv> work_loop burst w7 ticks"
  defines "w8 \<equiv> fst (snd X)"
  defines "fin \<equiv> (if scheduler w \<or> ws then [StopScheduler] else []) @ [RegisterDeath]"
  shows "ext (loop_action burst (default_worker_ttl w)) w7 w8"
    and "fst (private_work burst ll df lf mj ws w ticks) =
           (case fst X of Ok u \<Rightarrow> Ok (finished_in (new_actions w7 w8)) | Exn e \<Rightarrow> Exn e
            | Exit \<Rightarrow> Exit | Blocked \<Rightarrow> Blocked)"
    and "run_trace w (private_work burst ll df lf mj ws w ticks) =
           startup_actions burst ll df lf ws w @ new_actions w7 w8 @
           (case fst X of Ok u \<Rightarrow> (if is_horse w then [] else fin)
            | Exn e \<Rightarrow> (if is_horse w then [] else fin) | Exit \<Rightarrow> [] | Blocked \<Rightarrow> [])"
    and "pool (fst (snd (private_work burst ll df lf mj ws w ticks))) = pool w8"
proof -
  show e: "ext (loop_action burst (default_worker_ttl w)) w7 w8"
    using work_loop_ext [of burst w7 ticks] by (simp add: w8_def X_def w7_def startup_fields)
  then have r: "rel w7 w8" by (simp add: ext_def)
  note d = relD [OF r]
  have t8: "trace w8 = trace w @ startup_actions burst ll df lf ws w @ new_actions w7 w8"
    using d(1) by (simp add: extends_iff w7_def startup_fields)
  have fa: "finally_actions w8 = (if is_horse w then [] else fin)"
    using d(4,5) by (simp add: finally_actions_def fin_def w7_def startup_fields)
  have dp: "did_perform_work w8 = finished_in (new_actions w7 w8)"
    using d(8) by (simp add: w7_def startup_fields)
  obtain r8 ts8 where X: "work_loop burst w7 ticks = (r8, w8, ts8)"
    by (cases "work_loop burst w7 ticks") (simp add: w8_def X_def)
  have fX: "fst X = r8" using X by (simp add: X_def)
  show "fst (private_work burst ll df lf mj ws w ticks) =
           (case fst X of Ok u \<Rightarrow> Ok (finished_in (new_actions w7 w8)) | Exn e \<Rightarrow> Exn e
            | Exit \<Rightarrow> Exit | Blocked \<Rightarrow> Blocked)"
    using X dp unfolding fX
    by (cases r8) (simp_all add: private_work_def w7_def [symmetric] Let_def finally_fields)
  show "run_trace w (private_work burst ll df lf mj ws w ticks) =
           startup_actions burst ll df lf ws w @ new_actions w7 w8 @
           (case fst X of Ok u \<Rightarrow> (if is_horse w then [] else fin)
            | Exn e \<Rightarrow> (if is_horse w then [] else fin) | Exit \<Rightarrow> [] | Blocked \<Rightarrow> [])"
  proof -
    let ?tr = "startup_actions burst ll df lf ws w @ new_actions w7 w8 @
           (case r8 of Ok u \<Rightarrow> (if is_horse w then [] else fin)
            | Exn e \<Rightarrow> (if is_horse w then [] else fin) | Exit \<Rightarrow> [] | Blocked \<Rightarrow> [])"
    have "trace (fst (snd (private_work burst ll df lf mj ws w ticks))) = trace w @ ?tr"
      using X t8 fa
      by (cases r8) (simp_all add: private_work_def w7_def [symmetric] Let_def finally_fields)
    from extendsI [OF this] show ?thesis by (simp add: run_trace_def fX)
  qed
  show "pool (fst (snd (private_work burst ll df lf mj ws w ticks))) = pool w8"
    using X
    by (cases r8) (simp_all add: private_work_def w7_def [symmetric] Let_def finally_fields)
qed












subsection \<open>The capacity of the pool\<close>


lemma inflight_plain_list: "list_all plain tr \<Longrightarrow> inflight n tr = n"
  by (induction tr) (simp_all add: pool_effect_plain)

lemma bounded_plain: "list_all plain tr \<Longrightarrow> n \<le> c \<Longrightarrow> bounded c n tr"
proof -
  assume p: "list_all plain tr" and n: "n \<le> c"
  have "inflight n (take k tr) = n" for k
  proof (rule inflight_plain_list)
    show "list_all plain (take k tr)"
      using p set_take_subset [of k tr] by (auto simp: list_all_iff)
  qed
  with n show ?thesis by (simp add: bounded_def)
qed

lemma startup_actions_plain: "list_all plain (startup_actions burst ll df lf ws w)"
  by (simp add: startup_actions_def plain_def)

lemma pool_spawn_blocked: "full w \<Longrightarrow> execute_job j q w [] = (Blocked, w, [])"
  by (simp add: execute_job_def)

lemma pool_spawn_waits:
  "full w \<Longrightarrow> \<not> killed w \<Longrightarrow> execute_job j q w (Tick [] a # ts) = execute_job j q w ts"
  by (simp add: execute_job_def yield_def)

lemma pool_spawn_after_completion:
  assumes "length (pool w) = pool_size w" "1 \<le> pool_size w" "\<not> joining w" "\<not> killed w"
  shows "fst (execute_job j q w (Tick [Complete 0 st] a # ts)) = Ok () \<and>
         length (pool (fst (snd (execute_job j q w (Tick [Complete 0 st] a # ts))))) = pool_size w"
proof -
  obtain j0 q0 where p0: "pool w ! 0 = (j0, q0)" by (cases "pool w ! 0") auto
  define w1 where "w1 = greenlet_finished 0 st w"
  have len: "0 < length (pool w)" using assms by simp
  have f1: "length (pool w1) = pool_size w - 1" "pool_size w1 = pool_size w"
      "joining w1 = joining w" "killed w1 = killed w"
    using len p0 assms(1)
    by (simp_all add: w1_def greenlet_finished_def job_done_def heartbeat_def act_def Let_def)
  have jw: "join_wakeup w1 = w1" using f1 assms by (simp add: join_wakeup_def)
  have y: "yield [Complete 0 st] w = (Resume, w1)"
    using jw f1 assms by (simp add: yield_def w1_def [symmetric])
  have nf: "\<not> full w1" using f1 assms by (simp add: full_def)
  have "full w" using assms by (simp add: full_def)
  then have "execute_job j q w (Tick [Complete 0 st] a # ts) = pool_spawn j q w1 ts"
    using y by (simp add: execute_job_def)
  also have "\<dots> = (Ok (), (act (Spawn j q) w1)\<lparr>pool := pool w1 @ [(j, q)]\<rparr>, ts)"
    using nf by (cases ts) simp_all
  finally show ?thesis using f1 assms by simp
qed

text \<open>
  C1. The capacity is the keyword \<^verbatim>\<open>pool_size\<close> given at construction, 20 by default.
  For a capacity of at least 1 and a pool that starts within it, the in-flight count read
  off the trace of a run of \<^verbatim>\<open>_work\<close> is within the capacity after every action of
  the run, and it is the size of the pool at the end. An admission on a full pool blocks:
  it neither fails nor admits; it goes on waiting while nothing finishes, and admits once
  an execution has finished, which brings the count back to the capacity.
\<close>

theorem in_flight_never_exceeds_capacity:
  assumes "1 \<le> pool_size w" and "length (pool w) \<le> pool_size w"
  shows "bounded (pool_size w) (length (pool w))
           (run_trace w (private_work burst ll df lf mj ws w ticks)) \<and>
         length (pool (fst (snd (private_work burst ll df lf mj ws w ticks)))) =
           inflight (length (pool w)) (run_trace w (private_work burst ll df lf mj ws w ticks)) \<and>
         length (pool (fst (snd (private_work burst ll df lf mj ws w ticks)))) \<le> pool_size w \<and>
         (full w \<longrightarrow> execute_job j q w [] = (Blocked, w, [])) \<and>
         (full w \<and> \<not> killed w \<longrightarrow>
            execute_job j q w (Tick [] a # ts) = execute_job j q w ts) \<and>
         (full w \<and> \<not> joining w \<and> \<not> killed w \<longrightarrow>
            fst (execute_job j q w (Tick [Complete 0 st] a # ts)) = Ok () \<and>
            length (pool (fst (snd (execute_job j q w (Tick [Complete 0 st] a # ts))))) =
              pool_size w) \<and>
         pool_size (init None ttl horse) = 20 \<and>
         pool_size (init (Some c) ttl horse) = c"
proof -
  let ?P = "private_work burst ll df lf mj ws w ticks"
  let ?w7 = "startup burst ll df lf ws w"
  let ?X = "work_loop burst ?w7 ticks"
  let ?w8 = "fst (snd ?X)"
  let ?n = "length (pool w)" and ?c = "pool_size w"
  let ?su = "startup_actions burst ll df lf ws w"
  let ?fin = "(case fst ?X of
       Ok u \<Rightarrow> (if is_horse w then [] else (if scheduler w \<or> ws then [StopScheduler] else []) @ [RegisterDeath])
     | Exn e \<Rightarrow> (if is_horse w then [] else (if scheduler w \<or> ws then [StopScheduler] else []) @ [RegisterDeath])
     | Exit \<Rightarrow> [] | Blocked \<Rightarrow> [])"
  note e = private_work_run(1) [where burst = burst and w = w and ticks = ticks and ll = ll
        and df = df and lf = lf and ws = ws]
  note tr = private_work_run(3) [where burst = burst and w = w and ticks = ticks and ll = ll
        and df = df and lf = lf and ws = ws and mj = mj]
  note pl = private_work_run(4) [where burst = burst and w = w and ticks = ticks and ll = ll
        and df = df and lf = lf and ws = ws and mj = mj]
  from e have r: "rel ?w7 ?w8" by (simp add: ext_def)
  have mx: "max ?n ?c = ?c" using assms by simp
  from relD(9) [OF r] have l8: "length (pool ?w8) = inflight ?n (new_actions ?w7 ?w8)"
    by (simp add: startup_fields)
  from relD(10) [OF r] have b8: "bounded ?c ?n (new_actions ?w7 ?w8)"
    by (simp add: startup_fields mx)
  have pf: "list_all plain ?fin" by (cases "fst ?X") (simp_all add: plain_def)
  have su: "inflight ?n ?su = ?n" using startup_actions_plain by (rule inflight_plain_list)
  have fi: "inflight k ?fin = k" for k using pf by (rule inflight_plain_list)
  have le8: "inflight ?n (new_actions ?w7 ?w8) \<le> ?c" using b8 by (rule bounded_end)
  have B: "bounded ?c ?n (run_trace w ?P)"
    unfolding tr
    using b8 bounded_plain [OF startup_actions_plain assms(2)] bounded_plain [OF pf le8]
    by (simp only: bounded_append su)
  have L: "length (pool (fst (snd ?P))) = inflight ?n (run_trace w ?P)"
    unfolding tr pl using l8 by (simp only: inflight_append su fi)
  have f: "full w \<Longrightarrow> length (pool w) = pool_size w" using assms by (simp add: full_def)
  have 6: "full w \<and> \<not> joining w \<and> \<not> killed w \<longrightarrow>
            fst (execute_job j q w (Tick [Complete 0 st] a # ts)) = Ok () \<and>
            length (pool (fst (snd (execute_job j q w (Tick [Complete 0 st] a # ts))))) =
              pool_size w"
    using pool_spawn_after_completion [OF f assms(1)] by blast
  have 7: "pool_size (init None ttl horse) = 20 \<and> pool_size (init (Some c) ttl horse) = c"
    by (simp add: init_def DEFAULT_POOL_SIZE_def)
  from B L bounded_end [OF B] 6 7 show ?thesis
    by (simp add: pool_spawn_blocked pool_spawn_waits)
qed


theorem in_flight_never_exceeds_capacity_witness:
  "(1::nat) \<le> pool_size (init (Some 2) 60 False) \<and>
   length (pool (init (Some 2) 60 False)) \<le> pool_size (init (Some 2) 60 False) \<and>
   bounded 2 0 (run_trace (init (Some 2) 60 False)
     (private_work False ''INFO'' DEFAULT_LOGGING_DATE_FORMAT DEFAULT_LOGGING_FORMAT None False
       (init (Some 2) 60 False)
       [Tick [] (DeqJob (Job 1) (Queue ''q'')), Tick [] (DeqJob (Job 2) (Queue ''q'')),
        Tick [] DeqNone, Tick [Complete 0 FINISHED] DeqNone,
        Tick [] (DeqJob (Job 3) (Queue ''q'')),
        Tick [Complete 0 FINISHED, Complete 0 FAILED] DeqNone, Tick [] DeqNone])) \<and>
   fst (private_work False ''INFO'' DEFAULT_LOGGING_DATE_FORMAT DEFAULT_LOGGING_FORMAT None False
       (init (Some 2) 60 False)
       [Tick [] (DeqJob (Job 1) (Queue ''q'')), Tick [] (DeqJob (Job 2) (Queue ''q'')),
        Tick [] DeqNone, Tick [Complete 0 FINISHED] DeqNone,
        Tick [] (DeqJob (Job 3) (Queue ''q'')),
        Tick [Complete 0 FINISHED, Complete 0 FAILED] DeqNone, Tick [] DeqNone]) = Ok True \<and>
   length (filter (\<lambda>a. a = Spawn (Job 3) (Queue ''q'')) (run_trace (init (Some 2) 60 False)
     (private_work False ''INFO'' DEFAULT_LOGGING_DATE_FORMAT DEFAULT_LOGGING_FORMAT None False
       (init (Some 2) 60 False)
       [Tick [] (DeqJob (Job 1) (Queue ''q'')), Tick [] (DeqJob (Job 2) (Queue ''q'')),
        Tick [] DeqNone, Tick [Complete 0 FINISHED] DeqNone,
        Tick [] (DeqJob (Job 3) (Queue ''q'')),
        Tick [Complete 0 FINISHED, Complete 0 FAILED] DeqNone, Tick [] DeqNone]))) = 1 \<and>
   length (pool (fst (snd (private_work False ''INFO'' DEFAULT_LOGGING_DATE_FORMAT DEFAULT_LOGGING_FORMAT None False
       (init (Some 2) 60 False)
       [Tick [] (DeqJob (Job 1) (Queue ''q'')), Tick [] (DeqJob (Job 2) (Queue ''q'')),
        Tick [] DeqNone, Tick [Complete 0 FINISHED] DeqNone,
        Tick [] (DeqJob (Job 3) (Queue ''q'')),
        Tick [Complete 0 FINISHED, Complete 0 FAILED] DeqNone, Tick [] DeqNone])))) = 0 \<and>
   full ((init (Some 2) 60 False)\<lparr>pool := [(Job 1, Queue ''q''), (Job 2, Queue ''q'')]\<rparr>) \<and> \<not> joining ((init (Some 2) 60 False)\<lparr>pool := [(Job 1, Queue ''q''), (Job 2, Queue ''q'')]\<rparr>) \<and> \<not> killed ((init (Some 2) 60 False)\<lparr>pool := [(Job 1, Queue ''q''), (Job 2, Queue ''q'')]\<rparr>) \<and>
   execute_job (Job 3) (Queue ''q'') ((init (Some 2) 60 False)\<lparr>pool := [(Job 1, Queue ''q''), (Job 2, Queue ''q'')]\<rparr>) [] = (Blocked, ((init (Some 2) 60 False)\<lparr>pool := [(Job 1, Queue ''q''), (Job 2, Queue ''q'')]\<rparr>), []) \<and>
   fst (execute_job (Job 3) (Queue ''q'') ((init (Some 2) 60 False)\<lparr>pool := [(Job 1, Queue ''q''), (Job 2, Queue ''q'')]\<rparr>) [Tick [Complete 0 FINISHED] DeqNone]) = Ok () \<and>
   length (pool (fst (snd (execute_job (Job 3) (Queue ''q'') ((init (Some 2) 60 False)\<lparr>pool := [(Job 1, Queue ''q''), (Job 2, Queue ''q'')]\<rparr>)
      [Tick [Complete 0 FINISHED] DeqNone])))) = 2"
proof -
  have a: "(1::nat) \<le> pool_size (init (Some 2) 60 False)"
    and b: "length (pool (init (Some 2) 60 False)) \<le> pool_size (init (Some 2) 60 False)"
    by (simp_all add: init_def)
  have a2: "(1::nat) \<le> pool_size ((init (Some 2) 60 False)\<lparr>pool := [(Job 1, Queue ''q''), (Job 2, Queue ''q'')]\<rparr>)" and b2: "length (pool ((init (Some 2) 60 False)\<lparr>pool := [(Job 1, Queue ''q''), (Job 2, Queue ''q'')]\<rparr>)) \<le> pool_size ((init (Some 2) 60 False)\<lparr>pool := [(Job 1, Queue ''q''), (Job 2, Queue ''q'')]\<rparr>)"
    and f2: "full ((init (Some 2) 60 False)\<lparr>pool := [(Job 1, Queue ''q''), (Job 2, Queue ''q'')]\<rparr>)" "\<not> joining ((init (Some 2) 60 False)\<lparr>pool := [(Job 1, Queue ''q''), (Job 2, Queue ''q'')]\<rparr>)" "\<not> killed ((init (Some 2) 60 False)\<lparr>pool := [(Job 1, Queue ''q''), (Job 2, Queue ''q'')]\<rparr>)"
    by (simp_all add: init_def full_def)
  have c: "fst (private_work False ''INFO'' DEFAULT_LOGGING_DATE_FORMAT DEFAULT_LOGGING_FORMAT None False
       (init (Some 2) 60 False)
       [Tick [] (DeqJob (Job 1) (Queue ''q'')), Tick [] (DeqJob (Job 2) (Queue ''q'')),
        Tick [] DeqNone, Tick [Complete 0 FINISHED] DeqNone,
        Tick [] (DeqJob (Job 3) (Queue ''q'')),
        Tick [Complete 0 FINISHED, Complete 0 FAILED] DeqNone, Tick [] DeqNone]) = Ok True"
    by code_simp
  have d: "length (filter (\<lambda>a. a = Spawn (Job 3) (Queue ''q'')) (run_trace (init (Some 2) 60 False)
     (private_work False ''INFO'' DEFAULT_LOGGING_DATE_FORMAT DEFAULT_LOGGING_FORMAT None False
       (init (Some 2) 60 False)
       [Tick [] (DeqJob (Job 1) (Queue ''q'')), Tick [] (DeqJob (Job 2) (Queue ''q'')),
        Tick [] DeqNone, Tick [Complete 0 FINISHED] DeqNone,
        Tick [] (DeqJob (Job 3) (Queue ''q'')),
        Tick [Complete 0 FINISHED, Complete 0 FAILED] DeqNone, Tick [] DeqNone]))) = 1"
    by code_simp
  have e: "length (pool (fst (snd (private_work False ''INFO'' DEFAULT_LOGGING_DATE_FORMAT DEFAULT_LOGGING_FORMAT None False
       (init (Some 2) 60 False)
       [Tick [] (DeqJob (Job 1) (Queue ''q'')), Tick [] (DeqJob (Job 2) (Queue ''q'')),
        Tick [] DeqNone, Tick [Complete 0 FINISHED] DeqNone,
        Tick [] (DeqJob (Job 3) (Queue ''q'')),
        Tick [Complete 0 FINISHED, Complete 0 FAILED] DeqNone, Tick [] DeqNone])))) = 0"
    by code_simp
  from in_flight_never_exceeds_capacity [OF a b, where burst = False and ll = "''INFO''"
      and df = DEFAULT_LOGGING_DATE_FORMAT and lf = DEFAULT_LOGGING_FORMAT and mj = None
      and ws = False and ticks = "[Tick [] (DeqJob (Job 1) (Queue ''q'')), Tick [] (DeqJob (Job 2) (Queue ''q'')),
        Tick [] DeqNone, Tick [Complete 0 FINISHED] DeqNone,
        Tick [] (DeqJob (Job 3) (Queue ''q'')),
        Tick [Complete 0 FINISHED, Complete 0 FAILED] DeqNone, Tick [] DeqNone]"]
    in_flight_never_exceeds_capacity [OF a2 b2, where j = "Job 3" and q = "Queue ''q''"
      and st = FINISHED and a = DeqNone and ts = "[]"]
    a b c d e f2
  show ?thesis by (simp add: init_def)
qed



subsection \<open>The cold shutdown\<close>


























end
